theory Spec2Isabelle
  imports Complex_Main "HOL-Library.AList"
begin

section \<open>Text primitives\<close>

text \<open>
  Python strings are sequences of code points. A HOL \<open>char\<close> stands for the code point
  of the same number, so a \<open>string\<close> is a Python \<open>str\<close> whose code points lie below
  256. On that range \<open>str.lower\<close>, \<open>str.strip\<close> and the classes \<open>\d\<close> and \<open>\s\<close> of the
  \<open>re\<close> module are the functions below.
\<close>

definition code_point :: "char \<Rightarrow> nat" where
  "code_point c = of_char c"

text \<open>\<open>\d\<close>: the decimal digits; below 256 these are \<open>0\<close> to \<open>9\<close>.\<close>

definition is_digit :: "char \<Rightarrow> bool" where
  "is_digit c = (48 \<le> code_point c \<and> code_point c \<le> 57)"

text \<open>\<open>\s\<close> and the characters \<open>str.strip()\<close> removes: tab to carriage return, the four
  separators 28 to 31, the space, NEL (133) and the no-break space (160).\<close>

definition is_space :: "char \<Rightarrow> bool" where
  "is_space c =
     (let n = code_point c
      in (9 \<le> n \<and> n \<le> 13) \<or> (28 \<le> n \<and> n \<le> 32) \<or> n = 133 \<or> n = 160)"

text \<open>\<open>str.lower()\<close>, one code point at a time: \<open>A\<close> to \<open>Z\<close> and the upper-case letters
  192 to 222 (the multiplication sign 215 apart) move up by 32.\<close>

definition lower_char :: "char \<Rightarrow> char" where
  "lower_char c =
     (let n = code_point c
      in if (65 \<le> n \<and> n \<le> 90) \<or> (192 \<le> n \<and> n \<le> 222 \<and> n \<noteq> 215)
         then char_of (n + 32) else c)"

definition lower :: "string \<Rightarrow> string" where
  "lower s = map lower_char s"

text \<open>\<open>s.replace(" ", "_")\<close>\<close>

definition replace_space :: "string \<Rightarrow> string" where
  "replace_space s = map (\<lambda>c. if c = CHR '' '' then CHR ''_'' else c) s"

text \<open>\<open>s.strip()\<close>\<close>

definition strip :: "string \<Rightarrow> string" where
  "strip s = rev (dropWhile is_space (rev (dropWhile is_space s)))"

text \<open>\<open>s.startswith(p)\<close>\<close>

fun starts_with :: "string \<Rightarrow> string \<Rightarrow> bool" where
  "starts_with [] s = True"
| "starts_with (p # ps) [] = False"
| "starts_with (p # ps) (c # cs) = (p = c \<and> starts_with ps cs)"

text \<open>\<open>sub in s\<close>\<close>

fun contains :: "string \<Rightarrow> string \<Rightarrow> bool" where
  "contains sub [] = (sub = [])"
| "contains sub (c # cs) = (starts_with sub (c # cs) \<or> contains sub cs)"

text \<open>\<open>re.split\<close> on a one-character pattern: the pieces between the occurrences of
  the character, the empty ones included.\<close>

fun split_on :: "char \<Rightarrow> string \<Rightarrow> string list" where
  "split_on d [] = [[]]"
| "split_on d (c # cs) =
     (if c = d then [] # split_on d cs
      else (case split_on d cs of
              [] \<Rightarrow> [[c]]
            | piece # pieces \<Rightarrow> (c # piece) # pieces))"

text \<open>\<open>str(n)\<close> for a non-negative integer: its decimal digits, most significant first.\<close>

definition digit_char :: "nat \<Rightarrow> char" where
  "digit_char n = char_of (48 + n)"

fun str_of_nat :: "nat \<Rightarrow> string" where
  "str_of_nat n =
     (if n < 10 then [digit_char n]
      else str_of_nat (n div 10) @ [digit_char (n mod 10)])"

declare str_of_nat.simps [simp del]

section \<open>Cell keys\<close>

text \<open>
  \<^verbatim>\<open>
  def completion_key(week_idx: int, session_col: str) -> str:
      slug = session_col.lower().replace(" ", "_")
      return f"completed_{week_idx}_{slug}"

  def planned_key(week_idx: int, session_col: str) -> str:
      slug = session_col.lower().replace(" ", "_")
      return f"planned_{week_idx}_{slug}"
  \<close>
  The week index is a row number of the plan, a natural number.
\<close>

definition slug :: "string \<Rightarrow> string" where
  "slug session_col = replace_space (lower session_col)"

definition completion_key :: "nat \<Rightarrow> string \<Rightarrow> string" where
  "completion_key week_idx session_col =
     ''completed_'' @ str_of_nat week_idx @ ''_'' @ slug session_col"

definition planned_key :: "nat \<Rightarrow> string \<Rightarrow> string" where
  "planned_key week_idx session_col =
     ''planned_'' @ str_of_nat week_idx @ ''_'' @ slug session_col"

text \<open>The key of the selectbox of a cell, a widget key:
  \<^verbatim>\<open>select_key = f"{p_key}_select"\<close>\<close>

definition select_key :: "nat \<Rightarrow> string \<Rightarrow> string" where
  "select_key week_idx session_col = planned_key week_idx session_col @ ''_select''"

section \<open>Text distance parser\<close>

text \<open>
  Distances are Python floats. The model keeps their exact values as rationals: it
  says which numbers are read and how they are combined, and leaves rounding out.
\<close>

definition digit_val :: "char \<Rightarrow> nat" where
  "digit_val c = code_point c - 48"

definition digits_value :: "string \<Rightarrow> nat" where
  "digits_value s = foldl (\<lambda>a c. 10 * a + digit_val c) 0 s"

text \<open>\<open>float(text)\<close> for a text of the shape \<open>\d+(?:\.\d+)?\<close>, the only texts the
  parser converts.\<close>

definition float_of :: "string \<Rightarrow> rat" where
  "float_of s =
     (let whole = takeWhile is_digit s;
          frac = drop (Suc (length whole)) s
      in of_nat (digits_value whole) + of_nat (digits_value frac) / 10 ^ length frac)"

text \<open>
  The two regular expressions of \<open>extract_km\<close> are matched as \<open>re\<close> matches them at one
  start position: each returns the captured groups and the text after the match.
  \<open>match_number\<close> is \<open>\d+(?:\.\d+)?\<close>: the longest run of digits, then a dot and the
  longest run of digits when a digit follows the dot. \<open>match_km\<close> is \<open>\s*km\<close>.
\<close>

definition match_number :: "string \<Rightarrow> (string \<times> string) option" where
  "match_number s =
     (let whole = takeWhile is_digit s; r = dropWhile is_digit s
      in if whole = [] then None
         else (case r of
                 [] \<Rightarrow> Some (whole, r)
               | d # r' \<Rightarrow>
                   if d = CHR ''.'' \<and> takeWhile is_digit r' \<noteq> []
                   then Some (whole @ d # takeWhile is_digit r', dropWhile is_digit r')
                   else Some (whole, r)))"

definition match_km :: "string \<Rightarrow> string option" where
  "match_km s =
     (case dropWhile is_space s of
        k # m # r \<Rightarrow> if k = CHR ''k'' \<and> m = CHR ''m'' then Some r else None
      | _ \<Rightarrow> None)"

text \<open>\<open>(\d+(?:\.\d+)?)\s*km\<close> at the start of \<open>s\<close>.\<close>

definition match_single :: "string \<Rightarrow> (string \<times> string) option" where
  "match_single s =
     (case match_number s of
        None \<Rightarrow> None
      | Some (num, r) \<Rightarrow>
          (case match_km r of None \<Rightarrow> None | Some r' \<Rightarrow> Some (num, r')))"

text \<open>\<open>(\d+(?:\.\d+)?)\s*-\s*(\d+(?:\.\d+)?)\s*km\<close> at the start of \<open>s\<close>.\<close>

definition match_range :: "string \<Rightarrow> (string \<times> string \<times> string) option" where
  "match_range s =
     (case match_number s of
        None \<Rightarrow> None
      | Some (low, r1) \<Rightarrow>
          (case dropWhile is_space r1 of
             [] \<Rightarrow> None
           | d # r2 \<Rightarrow>
               if d = CHR ''-'' then
                 (case match_number (dropWhile is_space r2) of
                    None \<Rightarrow> None
                  | Some (high, r3) \<Rightarrow>
                      (case match_km r3 of
                         None \<Rightarrow> None
                       | Some r4 \<Rightarrow> Some (low, high, r4)))
               else None))"

text \<open>
  The texts the two patterns match, read as regular expressions: a number is a
  non-empty run of digits, or two such runs with a dot between them; \<open>single_at s num
  rest\<close> says that \<open>s\<close> is a number \<open>num\<close>, white space, \<open>km\<close> and then \<open>rest\<close>;
  \<open>range_at s low high rest\<close> says that \<open>s\<close> is a number \<open>low\<close>, white space, a hyphen, white
  space, a number \<open>high\<close>, white space, \<open>km\<close> and then \<open>rest\<close>. At one start position a text
  has at most one such reading, and it is the one \<open>match_single\<close> and \<open>match_range\<close>
  return (\<open>match_single_iff\<close>, \<open>match_range_iff\<close>).
\<close>

definition digits :: "string \<Rightarrow> bool" where
  "digits s = (s \<noteq> [] \<and> list_all is_digit s)"

definition number_text :: "string \<Rightarrow> bool" where
  "number_text s =
     (digits s \<or> (\<exists>whole frac. digits whole \<and> digits frac \<and> s = whole @ ''.'' @ frac))"

definition blank :: "string \<Rightarrow> bool" where
  "blank s = list_all is_space s"

definition single_at :: "string \<Rightarrow> string \<Rightarrow> string \<Rightarrow> bool" where
  "single_at s num rest =
     (\<exists>ws. number_text num \<and> blank ws \<and> s = num @ ws @ ''km'' @ rest)"

definition range_at :: "string \<Rightarrow> string \<Rightarrow> string \<Rightarrow> string \<Rightarrow> bool" where
  "range_at s low high rest =
     (\<exists>ws1 ws2 ws3. number_text low \<and> number_text high
        \<and> blank ws1 \<and> blank ws2 \<and> blank ws3
        \<and> s = low @ ws1 @ ''-'' @ ws2 @ high @ ws3 @ ''km'' @ rest)"

text \<open>\<open>re.search\<close> with the range pattern: the match at the leftmost start position
  that has one.\<close>

fun search_range :: "string \<Rightarrow> (string \<times> string) option" where
  "search_range [] = None"
| "search_range (c # cs) =
     (case match_range (c # cs) of
        Some (low, high, r) \<Rightarrow> Some (low, high)
      | None \<Rightarrow> search_range cs)"

text \<open>\<open>re.findall\<close> with the single-number pattern: the first group of every match,
  scanning from the left and resuming after each match.\<close>

function findall_km :: "string \<Rightarrow> string list" where
  "findall_km [] = []"
| "findall_km (c # cs) =
     (case match_single (c # cs) of
        Some (num, r) \<Rightarrow> num # findall_km r
      | None \<Rightarrow> findall_km cs)"
  by pat_completeness auto
termination
proof (relation "measure length")
  fix c cs x num r
  assume m: "match_single (c # cs) = Some x" and x: "(num, r) = x"
  have le: "\<And>P (xs::string). length (dropWhile P xs) \<le> length xs"
    by (rule length_dropWhile_le)
  from m x obtain r1 where r1: "match_number (c # cs) = Some (num, r1)"
    and km: "match_km r1 = Some r"
    by (auto simp: match_single_def split: option.splits)
  from r1 have "r1 = dropWhile is_digit (c # cs) \<or>
      r1 = dropWhile is_digit (tl (dropWhile is_digit (c # cs)))"
    unfolding match_number_def Let_def
    by (cases "dropWhile is_digit (c # cs)") (simp_all split: if_splits)
  then have "length r1 \<le> length (c # cs)"
  proof
    assume "r1 = dropWhile is_digit (c # cs)"
    then show ?thesis using le [of is_digit "c # cs"] by simp
  next
    assume "r1 = dropWhile is_digit (tl (dropWhile is_digit (c # cs)))"
    then have "length r1 \<le> length (tl (dropWhile is_digit (c # cs)))"
      using le [of is_digit "tl (dropWhile is_digit (c # cs))"] by simp
    also have "\<dots> \<le> length (dropWhile is_digit (c # cs))" by simp
    also have "\<dots> \<le> length (c # cs)" by (rule le)
    finally show ?thesis .
  qed
  moreover from km have "length r < length r1"
    using le [of is_space r1]
    by (auto simp: match_km_def split: list.splits if_splits)
  ultimately show "(r, c # cs) \<in> measure length" by simp
qed simp_all

text \<open>
  \<^verbatim>\<open>
  def extract_km(segment: str) -> float:
      range_match = re.search(r"(\d+(?:\.\d+)?)\s*-\s*(\d+(?:\.\d+)?)\s*km", segment)
      if range_match:
          low = float(range_match.group(1))
          high = float(range_match.group(2))
          return (low + high) / 2
      values = [float(val) for val in re.findall(r"(\d+(?:\.\d+)?)\s*km", segment)]
      return sum(values)
  \<close>
\<close>

definition extract_km :: "string \<Rightarrow> rat" where
  "extract_km segment =
     (case search_range segment of
        Some (low, high) \<Rightarrow> (float_of low + float_of high) / 2
      | None \<Rightarrow> sum_list (map float_of (findall_km segment)))"

definition SWIM_DISTANCE_KM :: rat where
  "SWIM_DISTANCE_KM = 2"

record distances =
  swim :: rat
  bike :: rat
  run :: rat

text \<open>
  \<^verbatim>\<open>
  def session_distances(session_text: str) -> dict[str, float]:
      distances = {"swim": 0.0, "bike": 0.0, "run": 0.0}
      text = session_text.lower()
      for segment in re.split(r"\+", text):
          segment = segment.strip()
          if not segment:
              continue
          if "swim" in segment:
              distances["swim"] += SWIM_DISTANCE_KM
          if "bike" in segment or "cycle" in segment:
              distances["bike"] += extract_km(segment)
          if "run" in segment:
              distances["run"] += extract_km(segment)
      return distances
  \<close>
  \<open>segment_step\<close> is the body of the loop.
\<close>

definition segment_step :: "distances \<Rightarrow> string \<Rightarrow> distances" where
  "segment_step d piece =
     (let segment = strip piece
      in if segment = [] then d
         else
           (let d1 = (if contains ''swim'' segment
                      then d\<lparr>swim := swim d + SWIM_DISTANCE_KM\<rparr> else d);
                d2 = (if contains ''bike'' segment \<or> contains ''cycle'' segment
                      then d1\<lparr>bike := bike d1 + extract_km segment\<rparr> else d1);
                d3 = (if contains ''run'' segment
                      then d2\<lparr>run := run d2 + extract_km segment\<rparr> else d2)
            in d3))"

definition session_distances :: "string \<Rightarrow> distances" where
  "session_distances session_text =
     foldl segment_step \<lparr>swim = 0, bike = 0, run = 0\<rparr>
       (split_on CHR ''+'' (lower session_text))"

text \<open>The segments the loop works on: the pieces of the lower-cased text between
  plus signs, stripped, the blank ones left out.\<close>

definition segments :: "string \<Rightarrow> string list" where
  "segments session_text =
     filter (\<lambda>segment. segment \<noteq> []) (map strip (split_on CHR ''+'' (lower session_text)))"

section \<open>Calendar\<close>

text \<open>
  A \<open>datetime.date\<close> is modelled by its proleptic Gregorian ordinal
  (\<open>date.toordinal()\<close>): day 1 is 0001-01-01, a Monday, and the last date Python has,
  9999-12-31, is day 3652059. Comparing dates compares ordinals, \<open>(a - b).days\<close> is
  their difference, and \<open>day + timedelta(days=k)\<close> raises \<open>OverflowError\<close> when the
  result is not a date.
\<close>

type_synonym date = int

datatype error =
  OverflowError | IndexError | AttributeError | UnicodeDecodeError | ValueError

definition MIN_ORDINAL :: int where
  "MIN_ORDINAL = 1"

definition MAX_ORDINAL :: int where
  "MAX_ORDINAL = 3652059"

definition valid_date :: "date \<Rightarrow> bool" where
  "valid_date d = (MIN_ORDINAL \<le> d \<and> d \<le> MAX_ORDINAL)"

definition date_add :: "date \<Rightarrow> int \<Rightarrow> error + date" where
  "date_add day k = (if valid_date (day + k) then Inr (day + k) else Inl OverflowError)"

text \<open>\<open>date.weekday()\<close>: Monday is 0 and Sunday is 6.\<close>

definition weekday :: "date \<Rightarrow> int" where
  "weekday day = (day + 6) mod 7"

text \<open>
  \<^verbatim>\<open>
  def align_to_monday(day: date) -> date:
      offset = (7 - day.weekday()) % 7
      return day + timedelta(days=offset)
  \<close>
\<close>

definition align_to_monday :: "date \<Rightarrow> error + date" where
  "align_to_monday day = (let offset = (7 - weekday day) mod 7 in date_add day offset)"

text \<open>
  \<^verbatim>\<open>
  raw_week_starts = plan_df["Week Commencing"].tolist()
  base_start = align_to_monday(raw_week_starts[0])
  week_starts = [base_start + timedelta(days=7 * idx) for idx in range(len(plan_df))]
  \<close>
  \<open>week_start_dates\<close> is the list comprehension: the first date it cannot build ends it
  with the error.
\<close>

fun week_start_dates :: "date \<Rightarrow> nat list \<Rightarrow> error + date list" where
  "week_start_dates base_start [] = Inr []"
| "week_start_dates base_start (idx # idxs) =
     (case date_add base_start (7 * int idx) of
        Inl e \<Rightarrow> Inl e
      | Inr d \<Rightarrow>
          (case week_start_dates base_start idxs of
             Inl e \<Rightarrow> Inl e
           | Inr ds \<Rightarrow> Inr (d # ds)))"

definition week_starts :: "date list \<Rightarrow> error + date list" where
  "week_starts raw_week_starts =
     (case raw_week_starts of
        [] \<Rightarrow> Inl IndexError
      | first # later \<Rightarrow>
          (case align_to_monday first of
             Inl e \<Rightarrow> Inl e
           | Inr base_start \<Rightarrow> week_start_dates base_start [0..<length raw_week_starts]))"

text \<open>
  \<^verbatim>\<open>
  plan_days = max(1, (plan_end - plan_start).days + 1)
  ...
  if today <= plan_start:
      plan_progress_pct = 0.0
  elif today >= plan_end:
      plan_progress_pct = 100.0
  else:
      plan_progress_pct = ((today - plan_start).days / plan_days) * 100
  \<close>
\<close>

definition plan_days :: "date \<Rightarrow> date \<Rightarrow> int" where
  "plan_days plan_start plan_end = max 1 (plan_end - plan_start + 1)"

definition plan_progress_pct :: "date \<Rightarrow> date \<Rightarrow> date \<Rightarrow> rat" where
  "plan_progress_pct today plan_start plan_end =
     (if today \<le> plan_start then 0
      else if today \<ge> plan_end then 100
      else (of_int (today - plan_start) / of_int (plan_days plan_start plan_end)) * 100)"

text \<open>
  Python computes the quotient and the product in binary floating point: each of the
  two operations returns its exact result rounded to a float. \<open>plan_progress_pct_rounded\<close>
  is the same computation with the rounding \<open>rnd\<close> written out; with no rounding it is
  \<open>plan_progress_pct\<close>.
\<close>

definition plan_progress_pct_rounded :: "(rat \<Rightarrow> rat) \<Rightarrow> date \<Rightarrow> date \<Rightarrow> date \<Rightarrow> rat" where
  "plan_progress_pct_rounded rnd today plan_start plan_end =
     (if today \<le> plan_start then 0
      else if today \<ge> plan_end then 100
      else rnd (rnd (of_int (today - plan_start) / of_int (plan_days plan_start plan_end)) * 100))"

section \<open>Session state and persistence\<close>

text \<open>
  The values the program keeps in \<open>st.session_state\<close> and in the state file are JSON
  values; \<open>JNull\<close> is Python's \<open>None\<close>, and a float is kept by its value (the
  non-finite floats that \<open>json\<close> also reads are left out). A dictionary is an association list in
  insertion order whose keys are distinct: \<open>map_of\<close> looks a key up and
  \<open>AList.update\<close> assigns to one.
\<close>

datatype json =
    JNull
  | JBool bool
  | JInt int
  | JFloat rat
  | JStr string
  | JArr "json list"
  | JObj "(string \<times> json) list"

type_synonym session_state = "(string \<times> json) list"

text \<open>Python's truth value of a JSON value, as \<open>if v:\<close> and \<open>bool(v)\<close> read it.\<close>

fun truthy :: "json \<Rightarrow> bool" where
  "truthy JNull = False"
| "truthy (JBool b) = b"
| "truthy (JInt i) = (i \<noteq> 0)"
| "truthy (JFloat q) = (q \<noteq> 0)"
| "truthy (JStr s) = (s \<noteq> [])"
| "truthy (JArr xs) = (xs \<noteq> [])"
| "truthy (JObj kvs) = (kvs \<noteq> [])"

text \<open>\<open>v == n\<close> for an integer \<open>n\<close>: numbers compare by value and \<open>True\<close> is 1.\<close>

fun py_eq_int :: "json \<Rightarrow> int \<Rightarrow> bool" where
  "py_eq_int (JBool b) n = ((if b then 1 else 0) = n)"
| "py_eq_int (JInt i) n = (i = n)"
| "py_eq_int (JFloat q) n = (q = of_int n)"
| "py_eq_int _ n = False"

text \<open>\<open>key in st.session_state\<close> and \<open>st.session_state.get(key, default)\<close>\<close>

definition has_key :: "session_state \<Rightarrow> string \<Rightarrow> bool" where
  "has_key ss key = (map_of ss key \<noteq> None)"

definition state_get :: "session_state \<Rightarrow> string \<Rightarrow> json \<Rightarrow> json" where
  "state_get ss key dflt = (case map_of ss key of None \<Rightarrow> dflt | Some v \<Rightarrow> v)"

text \<open>\<open>data.get(key, default)\<close> on a value read from the file: only a dictionary has
  the method.\<close>

definition data_get :: "json \<Rightarrow> string \<Rightarrow> json \<Rightarrow> error + json" where
  "data_get data key dflt =
     (case data of
        JObj kvs \<Rightarrow> Inr (case map_of kvs key of None \<Rightarrow> dflt | Some v \<Rightarrow> v)
      | _ \<Rightarrow> Inl AttributeError)"

definition STATE_VERSION :: int where
  "STATE_VERSION = 1"

text \<open>
  What \<open>load_state\<close> meets at \<open>STATE_PATH\<close>: no file, or the outcome of
  \<open>json.loads(STATE_PATH.read_text(encoding="utf-8"))\<close>, which raises \<open>OSError\<close>
  (the file cannot be read), \<open>UnicodeDecodeError\<close> (its bytes are not UTF-8),
  \<open>json.JSONDecodeError\<close> (its text is not JSON), or returns the value of the text.
\<close>

datatype state_file =
    No_file
  | Read_OSError
  | Read_UnicodeDecodeError
  | Read_JSONDecodeError
  | Read_value json

text \<open>
  \<^verbatim>\<open>
  def load_state() -> dict:
      if not STATE_PATH.exists():
          return {}
      try:
          data = json.loads(STATE_PATH.read_text(encoding="utf-8"))
      except (json.JSONDecodeError, OSError):
          return {}
      if data.get("version") != STATE_VERSION:
          return {}
      return data.get("state", {})
  \<close>
\<close>

definition load_state :: "state_file \<Rightarrow> error + json" where
  "load_state file =
     (case file of
        No_file \<Rightarrow> Inr (JObj [])
      | Read_OSError \<Rightarrow> Inr (JObj [])
      | Read_JSONDecodeError \<Rightarrow> Inr (JObj [])
      | Read_UnicodeDecodeError \<Rightarrow> Inl UnicodeDecodeError
      | Read_value data \<Rightarrow>
          (case data_get data ''version'' JNull of
             Inl e \<Rightarrow> Inl e
           | Inr version \<Rightarrow>
               if \<not> py_eq_int version STATE_VERSION then Inr (JObj [])
               else data_get data ''state'' (JObj [])))"

text \<open>
  \<^verbatim>\<open>
  def save_state(state: dict) -> None:
      payload = {
          "version": STATE_VERSION,
          "saved_at": date.today().isoformat(),
          "state": state,
      }
      try:
          STATE_PATH.write_text(json.dumps(payload, indent=2), encoding="utf-8")
      except OSError:
          st.warning("Unable to save state to disk.")
  \<close>
  \<open>saved_at\<close> is the text of today's date and \<open>writable\<close> says whether the write
  succeeds. The result is the value whose JSON text the file now holds, if it was
  written, and whether the warning was shown.
\<close>

definition save_state :: "bool \<Rightarrow> string \<Rightarrow> session_state \<Rightarrow> json option \<times> bool" where
  "save_state writable saved_at state =
     (let payload = JObj [(''version'', JInt STATE_VERSION),
                          (''saved_at'', JStr saved_at),
                          (''state'', JObj state)]
      in if writable then (Some payload, False) else (None, True))"

text \<open>
  \<^verbatim>\<open>
  persisted_state = {}
  for week_idx in range(len(plan_df)):
      for session_col in session_cols:
          c_key = completion_key(week_idx, session_col)
          if c_key in st.session_state:
              persisted_state[c_key] = bool(st.session_state.get(c_key, False))
          p_key = planned_key(week_idx, session_col)
          if p_key in st.session_state:
              persisted_state[p_key] = st.session_state.get(p_key)
  \<close>
  \<open>persist_cell\<close> is the body of the inner loop.
\<close>

definition persist_cell ::
  "session_state \<Rightarrow> nat \<Rightarrow> session_state \<Rightarrow> string \<Rightarrow> session_state" where
  "persist_cell ss week_idx persisted session_col =
     (let c_key = completion_key week_idx session_col;
          persisted1 =
            (if has_key ss c_key
             then AList.update c_key (JBool (truthy (state_get ss c_key (JBool False)))) persisted
             else persisted);
          p_key = planned_key week_idx session_col;
          persisted2 =
            (if has_key ss p_key
             then AList.update p_key (state_get ss p_key JNull) persisted1
             else persisted1)
      in persisted2)"

definition persisted_state :: "nat \<Rightarrow> string list \<Rightarrow> session_state \<Rightarrow> session_state" where
  "persisted_state n_rows session_cols ss =
     foldl (\<lambda>persisted week_idx. foldl (persist_cell ss week_idx) persisted session_cols)
       [] [0..<n_rows]"

section \<open>Aggregation\<close>

text \<open>
  A row of the plan is a pandas Series labelled by the column names: here the list of
  its entries, label and value, in column order. A value is \<open>None\<close> when it is missing
  (\<open>pd.isna\<close>) and \<open>Some t\<close> when its \<open>str\<close> is \<open>t\<close>. The program strips the headers
  (\<open>plan_df.columns = [str(col).strip() for col in plan_df.columns]\<close>), so two columns
  can end with the same label.
  \<^verbatim>\<open>
  session_text = ""
  if session_col in row and not pd.isna(row[session_col]):
      session_text = str(row[session_col])
  \<close>
  \<open>session_col in row\<close> holds when an entry has the label. \<open>row[session_col]\<close> is the
  value of the entry when there is one, and the Series of the values when there are
  several; on a Series \<open>not pd.isna(...)\<close> raises \<open>ValueError\<close>.
\<close>

type_synonym row = "(string \<times> string option) list"

definition cell_text :: "row \<Rightarrow> string \<Rightarrow> error + string" where
  "cell_text row session_col =
     (case filter (\<lambda>entry. fst entry = session_col) row of
        [] \<Rightarrow> Inr []
      | [entry] \<Rightarrow> Inr (case snd entry of None \<Rightarrow> [] | Some t \<Rightarrow> t)
      | _ \<Rightarrow> Inl ValueError)"

record stats =
  completed_count :: nat
  missed_count :: nat
  swim_km :: rat
  bike_km :: rat
  run_km :: rat
  gym_sessions :: nat

text \<open>
  \<^verbatim>\<open>
  for week_idx, row in plan_df.iterrows():
      week_start = week_starts[week_idx]
      week_end = week_start + timedelta(days=6)
      for session_col in session_cols:
          session_text = ...
          c_key = completion_key(week_idx, session_col)
          if st.session_state.get(c_key, False):
              completed_count += 1
              distances = session_distances(session_text)
              swim_km += distances["swim"]
              bike_km += distances["bike"]
              run_km += distances["run"]
              if "gym" in session_text.lower():
                  gym_sessions += 1
          elif week_end < today:
              missed_count += 1
  \<close>
  \<open>cell_update\<close> is the \<open>if\<close> and \<open>elif\<close> of the loop body, \<open>cell_step\<close> the whole body:
  it reads the session text and then updates the counters. \<open>aggregate_cells\<close> is the
  inner loop and \<open>aggregate_rows\<close> the outer loop over the rows with their index labels
  0, 1, ... (\<open>iterrows\<close>). An exception ends both loops.
\<close>

definition cell_update ::
  "session_state \<Rightarrow> date \<Rightarrow> nat \<Rightarrow> date \<Rightarrow> stats \<Rightarrow> string \<Rightarrow> string \<Rightarrow> stats" where
  "cell_update ss today week_idx week_end acc session_col session_text =
     (let c_key = completion_key week_idx session_col
      in if truthy (state_get ss c_key (JBool False)) then
           (let d = session_distances session_text
            in acc\<lparr>completed_count := completed_count acc + 1,
                   swim_km := swim_km acc + swim d,
                   bike_km := bike_km acc + bike d,
                   run_km := run_km acc + run d,
                   gym_sessions := gym_sessions acc +
                     (if contains ''gym'' (lower session_text) then 1 else 0)\<rparr>)
         else if week_end < today then acc\<lparr>missed_count := missed_count acc + 1\<rparr>
         else acc)"

definition cell_step ::
  "session_state \<Rightarrow> date \<Rightarrow> nat \<Rightarrow> date \<Rightarrow> row \<Rightarrow> stats \<Rightarrow> string \<Rightarrow> error + stats" where
  "cell_step ss today week_idx week_end row acc session_col =
     (case cell_text row session_col of
        Inl e \<Rightarrow> Inl e
      | Inr session_text \<Rightarrow>
          Inr (cell_update ss today week_idx week_end acc session_col session_text))"

fun aggregate_cells ::
  "session_state \<Rightarrow> date \<Rightarrow> nat \<Rightarrow> date \<Rightarrow> row \<Rightarrow> stats \<Rightarrow> string list \<Rightarrow> error + stats" where
  "aggregate_cells ss today week_idx week_end row acc [] = Inr acc"
| "aggregate_cells ss today week_idx week_end row acc (session_col # cols) =
     (case cell_step ss today week_idx week_end row acc session_col of
        Inl e \<Rightarrow> Inl e
      | Inr acc' \<Rightarrow> aggregate_cells ss today week_idx week_end row acc' cols)"

fun aggregate_rows ::
  "session_state \<Rightarrow> date \<Rightarrow> date list \<Rightarrow> string list \<Rightarrow> stats \<Rightarrow> (nat \<times> row) list
    \<Rightarrow> error + stats" where
  "aggregate_rows ss today starts session_cols acc [] = Inr acc"
| "aggregate_rows ss today starts session_cols acc ((week_idx, row) # rows) =
     (if week_idx < length starts then
        (case date_add (starts ! week_idx) 6 of
           Inl e \<Rightarrow> Inl e
         | Inr week_end \<Rightarrow>
             (case aggregate_cells ss today week_idx week_end row acc session_cols of
                Inl e \<Rightarrow> Inl e
              | Inr acc' \<Rightarrow> aggregate_rows ss today starts session_cols acc' rows))
      else Inl IndexError)"

definition iterrows :: "row list \<Rightarrow> (nat \<times> row) list" where
  "iterrows plan_rows = zip [0..<length plan_rows] plan_rows"

definition aggregate ::
  "session_state \<Rightarrow> date \<Rightarrow> date list \<Rightarrow> string list \<Rightarrow> row list \<Rightarrow> error + stats" where
  "aggregate ss today starts session_cols plan_rows =
     aggregate_rows ss today starts session_cols
       \<lparr>completed_count = 0, missed_count = 0, swim_km = 0, bike_km = 0, run_km = 0,
        gym_sessions = 0\<rparr>
       (iterrows plan_rows)"

text \<open>The cells of a plan in the order the loops visit them.\<close>

definition plan_cells :: "nat \<Rightarrow> string list \<Rightarrow> (nat \<times> string) list" where
  "plan_cells n_rows session_cols =
     concat (map (\<lambda>week_idx. map (Pair week_idx) session_cols) [0..<n_rows])"

text \<open>The test of the loop body on the completion flag of a cell:
  \<^verbatim>\<open>st.session_state.get(c_key, False)\<close>\<close>

definition is_completed :: "session_state \<Rightarrow> nat \<times> string \<Rightarrow> bool" where
  "is_completed ss cell =
     truthy (state_get ss (completion_key (fst cell) (snd cell)) (JBool False))"

text \<open>A label is single in a row when at most one entry of the row has it: then
  \<open>row[session_col]\<close> is a value and the session text is read.\<close>

definition single_label :: "row \<Rightarrow> string \<Rightarrow> bool" where
  "single_label row session_col =
     (length (filter (\<lambda>entry. fst entry = session_col) row) \<le> 1)"

text \<open>The session text of a column in a row and of a cell of the plan, where it is
  read.\<close>

definition row_text :: "row \<Rightarrow> string \<Rightarrow> string" where
  "row_text row session_col =
     (case cell_text row session_col of Inl e \<Rightarrow> [] | Inr session_text \<Rightarrow> session_text)"

definition plan_text :: "row list \<Rightarrow> nat \<times> string \<Rightarrow> string" where
  "plan_text plan_rows cell = row_text (plan_rows ! fst cell) (snd cell)"

section \<open>Properties of the cell keys\<close>

lemma digit_val_digit_char: "k < 10 \<Longrightarrow> digit_val (digit_char k) = k"
  by (simp add: digit_val_def digit_char_def code_point_def)

lemma is_digit_digit_char: "k < 10 \<Longrightarrow> is_digit (digit_char k)"
  by (simp add: is_digit_def digit_char_def code_point_def)

lemma str_of_nat_digits: "\<forall>c \<in> set (str_of_nat n). is_digit c"
proof (induction n rule: str_of_nat.induct)
  case (1 n)
  show ?case
  proof (cases "n < 10")
    case True
    then show ?thesis by (simp add: str_of_nat.simps [of n] is_digit_digit_char)
  next
    case False
    with 1 show ?thesis by (simp add: str_of_nat.simps [of n] is_digit_digit_char)
  qed
qed

lemma digits_value_snoc: "digits_value (s @ [c]) = 10 * digits_value s + digit_val c"
  by (simp add: digits_value_def)

text \<open>Reading the decimal digits of \<open>n\<close> gives \<open>n\<close> back, so \<open>str\<close> is injective.\<close>

lemma digits_value_str_of_nat: "digits_value (str_of_nat n) = n"
proof (induction n rule: str_of_nat.induct)
  case (1 n)
  show ?case
  proof (cases "n < 10")
    case True
    then show ?thesis
      by (simp add: str_of_nat.simps [of n] digits_value_def digit_val_digit_char)
  next
    case False
    with 1 have "digits_value (str_of_nat (n div 10)) = n div 10" by simp
    with False show ?thesis
      by (simp add: str_of_nat.simps [of n] digits_value_snoc digit_val_digit_char)
  qed
qed

lemma str_of_nat_inj: "str_of_nat m = str_of_nat n \<Longrightarrow> m = n"
  by (metis digits_value_str_of_nat)

lemma underscore_not_digit: "\<not> is_digit CHR ''_''"
  by (simp add: is_digit_def code_point_def)

text \<open>The week index ends at the first underscore after the prefix, whatever the
  slug holds.\<close>

lemma digits_then_underscore:
  assumes "\<forall>c \<in> set xs. is_digit c" "\<forall>c \<in> set ys. is_digit c"
    and "xs @ CHR ''_'' # s = ys @ CHR ''_'' # t"
  shows "xs = ys \<and> s = t"
proof -
  have "takeWhile is_digit (xs @ CHR ''_'' # s) = xs"
    using assms(1) underscore_not_digit by simp
  moreover have "takeWhile is_digit (ys @ CHR ''_'' # t) = ys"
    using assms(2) underscore_not_digit by simp
  ultimately have "xs = ys" using assms(3) by simp
  with assms(3) show ?thesis by simp
qed

lemma completion_key_eq_iff:
  "completion_key w1 c1 = completion_key w2 c2 \<longleftrightarrow> w1 = w2 \<and> slug c1 = slug c2"
  using digits_then_underscore
    [OF str_of_nat_digits str_of_nat_digits, of w1 "slug c1" w2 "slug c2"]
  by (auto simp: completion_key_def dest: str_of_nat_inj)

lemma planned_key_eq_iff:
  "planned_key w1 c1 = planned_key w2 c2 \<longleftrightarrow> w1 = w2 \<and> slug c1 = slug c2"
  using digits_then_underscore
    [OF str_of_nat_digits str_of_nat_digits, of w1 "slug c1" w2 "slug c2"]
  by (auto simp: planned_key_def dest: str_of_nat_inj)

lemma completion_key_neq_planned_key: "completion_key w1 c1 \<noteq> planned_key w2 c2"
  by (simp add: completion_key_def planned_key_def)

text \<open>
  Claim C7. A key is the prefix, an underscore, the decimal week index, an underscore
  and the normalised column name (lower-cased, each space replaced by an underscore).
  Two keys are equal exactly when their prefixes, their week indices and their
  normalised names are equal; so column names that differ only by case or by
  spaces against underscores share their keys, as \<open>Session 1\<close> and \<open>session_1\<close> do in
  week 3.
\<close>

theorem cell_key_injective:
  "completion_key w c = ''completed'' @ ''_'' @ str_of_nat w @ ''_'' @ replace_space (lower c)
   \<and> planned_key w c = ''planned'' @ ''_'' @ str_of_nat w @ ''_'' @ replace_space (lower c)
   \<and> (completion_key w1 c1 = completion_key w2 c2 \<longleftrightarrow>
        w1 = w2 \<and> replace_space (lower c1) = replace_space (lower c2))
   \<and> (planned_key w1 c1 = planned_key w2 c2 \<longleftrightarrow>
        w1 = w2 \<and> replace_space (lower c1) = replace_space (lower c2))
   \<and> completion_key w1 c1 \<noteq> planned_key w2 c2
   \<and> completion_key 3 ''Session 1'' = completion_key 3 ''session_1''
   \<and> completion_key 3 ''Session 1'' = ''completed_3_session_1''"
proof -
  have "completion_key 3 ''Session 1'' = ''completed_3_session_1''"
    by code_simp
  moreover have "completion_key 3 ''session_1'' = ''completed_3_session_1''"
    by code_simp
  ultimately show ?thesis
    using completion_key_eq_iff [of w1 c1 w2 c2] planned_key_eq_iff [of w1 c1 w2 c2]
      completion_key_neq_planned_key [of w1 c1 w2 c2]
    by (simp add: completion_key_def planned_key_def slug_def)
qed

theorem cell_key_injective_witness:
  "completion_key 3 ''Session 1'' = completion_key 3 ''session_1''
   \<and> completion_key 3 ''Session 1'' \<noteq> completion_key 4 ''Session 1''
   \<and> completion_key 3 ''Session 1'' \<noteq> completion_key 3 ''Session 2''
   \<and> completion_key 3 ''Session 1'' \<noteq> planned_key 3 ''Session 1''"
proof -
  note week = cell_key_injective
    [where ?w1.0 = 3 and ?c1.0 = "''Session 1''" and ?w2.0 = 4 and ?c2.0 = "''Session 1''"]
  note name = cell_key_injective
    [where ?w1.0 = 3 and ?c1.0 = "''Session 1''" and ?w2.0 = 3 and ?c2.0 = "''Session 2''"]
  note kind = cell_key_injective
    [where ?w1.0 = 3 and ?c1.0 = "''Session 1''" and ?w2.0 = 3 and ?c2.0 = "''Session 1''"]
  have "completion_key 3 ''Session 1'' = completion_key 3 ''session_1''"
    using week by blast
  moreover have "(3::nat) \<noteq> 4"
    by simp
  then have "completion_key 3 ''Session 1'' \<noteq> completion_key 4 ''Session 1''"
    using week by blast
  moreover have "replace_space (lower ''Session 1'') \<noteq> replace_space (lower ''Session 2'')"
    by code_simp
  then have "completion_key 3 ''Session 1'' \<noteq> completion_key 3 ''Session 2''"
    using name by blast
  moreover have "completion_key 3 ''Session 1'' \<noteq> planned_key 3 ''Session 1''"
    using kind by blast
  ultimately show ?thesis by blast
qed

section \<open>Properties of the calendar\<close>

lemma weekday_range: "0 \<le> weekday d \<and> weekday d \<le> 6"
  by (simp add: weekday_def)

lemma align_offset_range:
  "0 \<le> (7 - weekday d) mod 7 \<and> (7 - weekday d) mod 7 \<le> 6
   \<and> ((7 - weekday d) mod 7 = 0 \<longleftrightarrow> weekday d = 0)
   \<and> weekday (d + (7 - weekday d) mod 7) = 0"
  unfolding weekday_def by presburger

text \<open>
  Claim C5. For a date \<open>d\<close>, \<open>align_to_monday d\<close> is \<open>d\<close> plus
  \<open>(7 - weekday d) mod 7\<close> days, with weekdays numbered from Monday = 0 to Sunday = 6.
  A Monday is returned unchanged. From any other day the result is the following
  Monday: strictly later than \<open>d\<close>, at most six days later, never earlier. The date
  addition raises \<open>OverflowError\<close> only when that Monday lies after 9999-12-31, the
  last date Python has.
\<close>

theorem align_to_monday_forward:
  assumes "valid_date d"
  shows "align_to_monday d = date_add d ((7 - weekday d) mod 7)
    \<and> 0 \<le> weekday d \<and> weekday d \<le> 6
    \<and> (weekday d = 0 \<longrightarrow> align_to_monday d = Inr d)
    \<and> (weekday d \<noteq> 0 \<longrightarrow>
         (case align_to_monday d of
            Inr r \<Rightarrow> d < r \<and> r \<le> d + 6 \<and> weekday r = 0
          | Inl e \<Rightarrow> e = OverflowError \<and> MAX_ORDINAL < d + 6))"
proof -
  let ?k = "(7 - weekday d) mod 7"
  note k = align_offset_range [of d]
  have eq: "align_to_monday d = date_add d ?k"
    by (simp add: align_to_monday_def)
  have mon: "weekday d = 0 \<longrightarrow> align_to_monday d = Inr d"
    using assms k by (simp add: eq date_add_def)
  have later: "weekday d \<noteq> 0 \<longrightarrow>
         (case align_to_monday d of
            Inr r \<Rightarrow> d < r \<and> r \<le> d + 6 \<and> weekday r = 0
          | Inl e \<Rightarrow> e = OverflowError \<and> MAX_ORDINAL < d + 6)"
  proof
    assume "weekday d \<noteq> 0"
    with k have pos: "0 < ?k" by linarith
    show "case align_to_monday d of
            Inr r \<Rightarrow> d < r \<and> r \<le> d + 6 \<and> weekday r = 0
          | Inl e \<Rightarrow> e = OverflowError \<and> MAX_ORDINAL < d + 6"
    proof (cases "valid_date (d + ?k)")
      case True
      then show ?thesis using pos k by (simp add: eq date_add_def)
    next
      case False
      with assms pos k have "MAX_ORDINAL < d + 6"
        by (simp add: valid_date_def MIN_ORDINAL_def)
      with False show ?thesis by (simp add: eq date_add_def)
    qed
  qed
  from eq weekday_range [of d] mon later show ?thesis by blast
qed

theorem align_to_monday_forward_witness:
  "valid_date 738888 \<and> weekday 738888 = 2 \<and> align_to_monday 738888 = Inr 738893
   \<and> weekday 738886 = 0 \<and> align_to_monday 738886 = Inr 738886
   \<and> weekday 3652056 = 1 \<and> align_to_monday 3652056 = Inl OverflowError"
proof -
  have v: "valid_date 738888" "valid_date 738886" "valid_date 3652056"
    by (simp_all add: valid_date_def MIN_ORDINAL_def MAX_ORDINAL_def)
  have w: "weekday 738888 = 2" "weekday 738886 = 0" "weekday 3652056 = 1"
    by (simp_all add: weekday_def)
  have "align_to_monday 738888 = Inr 738893"
    using align_to_monday_forward [OF v(1)] w(1)
    by (simp add: date_add_def valid_date_def MIN_ORDINAL_def MAX_ORDINAL_def)
  moreover have "align_to_monday 738886 = Inr 738886"
    using align_to_monday_forward [OF v(2)] w(2) by blast
  moreover have "align_to_monday 3652056 = Inl OverflowError"
    using align_to_monday_forward [OF v(3)] w(3)
    by (simp add: date_add_def valid_date_def MIN_ORDINAL_def MAX_ORDINAL_def)
  ultimately show ?thesis using v w by simp
qed

lemma week_start_dates_ok:
  assumes "\<forall>i \<in> set idxs. valid_date (base + 7 * int i)"
  shows "week_start_dates base idxs = Inr (map (\<lambda>i. base + 7 * int i) idxs)"
  using assms by (induction idxs) (simp_all add: date_add_def)

lemma week_start_dates_overflow:
  assumes "\<exists>i \<in> set idxs. \<not> valid_date (base + 7 * int i)"
  shows "week_start_dates base idxs = Inl OverflowError"
  using assms
proof (induction idxs)
  case Nil
  then show ?case by simp
next
  case (Cons i idxs)
  show ?case
  proof (cases "valid_date (base + 7 * int i)")
    case True
    with Cons show ?thesis by (simp add: date_add_def)
  next
    case False
    then show ?thesis by (simp add: date_add_def)
  qed
qed

lemma align_to_monday_valid: "align_to_monday A = Inr base \<Longrightarrow> valid_date base"
  by (auto simp: align_to_monday_def date_add_def Let_def split: if_splits)

lemma week_starts_cases:
  "week_starts (A # later) =
     (case align_to_monday A of
        Inl e \<Rightarrow> Inl e
      | Inr base \<Rightarrow>
          if base + 7 * int (length later) \<le> MAX_ORDINAL
          then Inr (map (\<lambda>i. base + 7 * int i) [0..<Suc (length later)])
          else Inl OverflowError)"
proof (cases "align_to_monday A")
  case (Inl e)
  then show ?thesis by (simp add: week_starts_def)
next
  case (Inr base)
  then have vb: "valid_date base" by (rule align_to_monday_valid)
  show ?thesis
  proof (cases "base + 7 * int (length later) \<le> MAX_ORDINAL")
    case True
    have "\<forall>i \<in> set [0..<Suc (length later)]. valid_date (base + 7 * int i)"
      using vb True by (auto simp: valid_date_def)
    from week_start_dates_ok [OF this] Inr True show ?thesis
      by (simp add: week_starts_def)
  next
    case False
    then have "\<not> valid_date (base + 7 * int (length later))"
      by (simp add: valid_date_def)
    then have "\<exists>i \<in> set [0..<Suc (length later)]. \<not> valid_date (base + 7 * int i)"
      by (intro bexI [of _ "length later"]) simp_all
    from week_start_dates_overflow [OF this] Inr False show ?thesis
      by (simp add: week_starts_def)
  qed
qed

text \<open>
  Claim C6. For a plan whose first week-commencing date is \<open>A\<close>, followed by the dates
  \<open>later\<close> of the other rows, the week starts are one date per row, entry \<open>i\<close> being
  \<open>align_to_monday A\<close> plus \<open>7 * i\<close> days, so consecutive entries are seven days apart;
  the dates of the later rows do not enter the result, only their number does. The
  list is built unless one of its dates lies after 9999-12-31.
\<close>

theorem week_starts_spaced:
  "week_starts (A # later) =
     (case align_to_monday A of
        Inl e \<Rightarrow> Inl e
      | Inr base \<Rightarrow>
          if base + 7 * int (length later) \<le> MAX_ORDINAL
          then Inr (map (\<lambda>i. base + 7 * int i) [0..<Suc (length later)])
          else Inl OverflowError)
   \<and> (week_starts (A # later) = Inr ws \<longrightarrow>
        length ws = length (A # later)
        \<and> (\<exists>base. align_to_monday A = Inr base
              \<and> (\<forall>i < length ws. ws ! i = base + 7 * int i))
        \<and> (\<forall>i. Suc i < length ws \<longrightarrow> ws ! Suc i - ws ! i = 7))
   \<and> (length later' = length later \<longrightarrow>
        week_starts (A # later') = week_starts (A # later))"
proof -
  note c = week_starts_cases [of A later]
  have res: "week_starts (A # later) = Inr ws \<longrightarrow>
        length ws = length (A # later)
        \<and> (\<exists>base. align_to_monday A = Inr base
              \<and> (\<forall>i < length ws. ws ! i = base + 7 * int i))
        \<and> (\<forall>i. Suc i < length ws \<longrightarrow> ws ! Suc i - ws ! i = 7)"
  proof
    assume ws: "week_starts (A # later) = Inr ws"
    with c obtain base where b: "align_to_monday A = Inr base"
      and m: "ws = map (\<lambda>i. base + 7 * int i) [0..<Suc (length later)]"
      by (auto split: sum.splits if_splits)
    have len: "length ws = length (A # later)" using m by simp
    have el: "\<forall>i < length ws. ws ! i = base + 7 * int i"
    proof (intro allI impI)
      fix i assume "i < length ws"
      then have "i < length [0..<Suc (length later)]" using m by simp
      then show "ws ! i = base + 7 * int i"
        unfolding m by (simp only: nth_map nth_upt length_upt) simp
    qed
    have "\<forall>i. Suc i < length ws \<longrightarrow> ws ! Suc i - ws ! i = 7"
      using el by simp
    with len b el show "length ws = length (A # later)
        \<and> (\<exists>base. align_to_monday A = Inr base
              \<and> (\<forall>i < length ws. ws ! i = base + 7 * int i))
        \<and> (\<forall>i. Suc i < length ws \<longrightarrow> ws ! Suc i - ws ! i = 7)"
      by blast
  qed
  have "length later' = length later \<longrightarrow>
        week_starts (A # later') = week_starts (A # later)"
    by (cases "align_to_monday A") (simp_all add: week_starts_def)
  with c res show ?thesis by blast
qed

theorem week_starts_spaced_witness:
  "week_starts [738888, 738900, 5] = Inr [738893, 738900, 738907]
   \<and> week_starts [738888, 1, 1] = week_starts [738888, 738900, 5]"
proof -
  have a: "align_to_monday 738888 = Inr 738893"
    by (simp add: align_to_monday_def weekday_def date_add_def valid_date_def
        MIN_ORDINAL_def MAX_ORDINAL_def)
  have u: "[0..<Suc (Suc (Suc 0))] = [0, Suc 0, Suc (Suc 0)]"
    by (simp add: upt_rec)
  have "week_starts [738888, 738900, 5] = Inr [738893, 738900, 738907]"
    using week_starts_spaced [of 738888 "[738900, 5]"] a u
    by (simp add: MAX_ORDINAL_def)
  moreover have "week_starts [738888, 1, 1] = week_starts [738888, 738900, 5]"
    using week_starts_spaced [of 738888 "[738900, 5]" _ "[1, 1]"] by simp
  ultimately show ?thesis by simp
qed

section \<open>Plan progress\<close>

lemma plan_days_pos: "0 < plan_days ps pe"
  by (simp add: plan_days_def)

lemma plan_progress_mid_bounds:
  assumes "ps < t" "t < pe"
  shows "0 \<le> (of_int (t - ps) / of_int (plan_days ps pe)) * (100::rat)"
    and "(of_int (t - ps) / of_int (plan_days ps pe)) * (100::rat) \<le> 100"
proof -
  have d: "plan_days ps pe = pe - ps + 1" using assms by (simp add: plan_days_def)
  have n: "(0::rat) < of_int (plan_days ps pe)" using plan_days_pos [of ps pe] by simp
  have "(0::rat) \<le> of_int (t - ps)" using assms by simp
  with n show "0 \<le> (of_int (t - ps) / of_int (plan_days ps pe)) * (100::rat)"
    by simp
  have "t - ps \<le> plan_days ps pe" using assms d by simp
  then have "(of_int (t - ps) :: rat) \<le> of_int (plan_days ps pe)"
    by (simp only: of_int_le_iff)
  with n have "(of_int (t - ps) :: rat) / of_int (plan_days ps pe) \<le> 1"
    by (simp add: divide_le_eq)
  then have "(of_int (t - ps) / of_int (plan_days ps pe)) * (100::rat) \<le> 1 * 100"
    by (rule mult_right_mono) simp
  then show "(of_int (t - ps) / of_int (plan_days ps pe)) * (100::rat) \<le> 100"
    by (simp only: mult_1)
qed

lemma plan_progress_bounds:
  "0 \<le> plan_progress_pct t ps pe \<and> plan_progress_pct t ps pe \<le> 100"
  using plan_progress_mid_bounds [of ps t pe]
  by (simp add: plan_progress_pct_def)

lemma plan_progress_mono:
  assumes "t1 \<le> t2"
  shows "plan_progress_pct t1 ps pe \<le> plan_progress_pct t2 ps pe"
proof (cases "t1 \<le> ps")
  case True
  then show ?thesis using plan_progress_bounds [of t2 ps pe]
    by (simp add: plan_progress_pct_def)
next
  case lo: False
  show ?thesis
  proof (cases "pe \<le> t2")
    case True
    with lo assms show ?thesis using plan_progress_bounds [of t1 ps pe]
      by (simp add: plan_progress_pct_def)
  next
    case False
    have n: "(0::rat) < of_int (plan_days ps pe)" using plan_days_pos [of ps pe] by simp
    have "(of_int (t1 - ps) :: rat) \<le> of_int (t2 - ps)" using assms by simp
    with n have "(of_int (t1 - ps) :: rat) / of_int (plan_days ps pe)
        \<le> of_int (t2 - ps) / of_int (plan_days ps pe)"
      by (simp only: divide_right_mono less_imp_le)
    then have "(of_int (t1 - ps) / of_int (plan_days ps pe)) * (100::rat)
        \<le> (of_int (t2 - ps) / of_int (plan_days ps pe)) * 100"
      by (rule mult_right_mono) simp
    with lo False assms show ?thesis by (simp add: plan_progress_pct_def)
  qed
qed

text \<open>
  The bounds and the monotonicity do not depend on the arithmetic being exact: they
  hold for every rounding that is monotone and keeps 0, 1 and 100, as rounding to the
  nearest float does.
\<close>

lemma plan_progress_pct_exact:
  "plan_progress_pct_rounded (\<lambda>x. x) today plan_start plan_end =
     plan_progress_pct today plan_start plan_end"
  by (simp add: plan_progress_pct_rounded_def plan_progress_pct_def)

lemma plan_progress_rounded_mid:
  fixes rnd :: "rat \<Rightarrow> rat"
  assumes rnd: "mono rnd" "rnd 0 = 0" "rnd 1 = 1" "rnd 100 = 100"
    and t: "ps < t1" "t1 \<le> t2" "t2 < pe"
  shows "0 \<le> rnd (rnd (of_int (t1 - ps) / of_int (plan_days ps pe)) * 100)"
    and "rnd (rnd (of_int (t1 - ps) / of_int (plan_days ps pe)) * 100)
      \<le> rnd (rnd (of_int (t2 - ps) / of_int (plan_days ps pe)) * 100)"
    and "rnd (rnd (of_int (t2 - ps) / of_int (plan_days ps pe)) * 100) \<le> 100"
proof -
  let ?n = "of_int (plan_days ps pe) :: rat"
  let ?q1 = "of_int (t1 - ps) / ?n" and ?q2 = "of_int (t2 - ps) / ?n"
  have n: "0 < ?n" by (simp add: plan_days_def)
  have d: "plan_days ps pe = pe - ps + 1" using t by (simp add: plan_days_def)
  have "(of_int (t1 - ps) :: rat) \<le> of_int (t2 - ps)" using t by simp
  with n have q12: "?q1 \<le> ?q2" by (simp only: divide_right_mono less_imp_le)
  have "(0::rat) \<le> of_int (t1 - ps)" using t by simp
  with n have q0: "0 \<le> ?q1" by simp
  have "t2 - ps \<le> plan_days ps pe" using t d by simp
  then have "(of_int (t2 - ps) :: rat) \<le> ?n" by (simp only: of_int_le_iff)
  with n have q1: "?q2 \<le> 1" by (simp add: divide_le_eq)
  from rnd(1) q0 have r0: "rnd 0 \<le> rnd ?q1" by (rule monoD)
  from rnd(1) q12 have r12: "rnd ?q1 \<le> rnd ?q2" by (rule monoD)
  from rnd(1) q1 have r1: "rnd ?q2 \<le> rnd 1" by (rule monoD)
  have "0 * (100::rat) \<le> rnd ?q1 * 100"
    using r0 rnd(2) by (intro mult_right_mono) simp_all
  then have "rnd 0 \<le> rnd (rnd ?q1 * 100)"
    using rnd(1) by (simp add: monoD)
  then show "0 \<le> rnd (rnd ?q1 * 100)" by (simp add: rnd(2))
  have "rnd ?q1 * 100 \<le> rnd ?q2 * 100"
    using r12 by (rule mult_right_mono) simp
  with rnd(1) show "rnd (rnd ?q1 * 100) \<le> rnd (rnd ?q2 * 100)" by (rule monoD)
  have "rnd ?q2 * 100 \<le> 1 * 100"
    using r1 rnd(3) by (intro mult_right_mono) simp_all
  then have "rnd (rnd ?q2 * 100) \<le> rnd 100"
    using rnd(1) by (simp add: monoD)
  then show "rnd (rnd ?q2 * 100) \<le> 100" by (simp add: rnd(4))
qed

lemma plan_progress_pct_rounded_bounds:
  fixes rnd :: "rat \<Rightarrow> rat"
  assumes "mono rnd" "rnd 0 = 0" "rnd 1 = 1" "rnd 100 = 100"
  shows "0 \<le> plan_progress_pct_rounded rnd t ps pe
    \<and> plan_progress_pct_rounded rnd t ps pe \<le> 100"
  using plan_progress_rounded_mid(1,3) [OF assms, of ps t t pe]
  by (simp add: plan_progress_pct_rounded_def)

lemma plan_progress_pct_rounded_mono:
  fixes rnd :: "rat \<Rightarrow> rat"
  assumes rnd: "mono rnd" "rnd 0 = 0" "rnd 1 = 1" "rnd 100 = 100" and "t1 \<le> t2"
  shows "plan_progress_pct_rounded rnd t1 ps pe \<le> plan_progress_pct_rounded rnd t2 ps pe"
proof (cases "t1 \<le> ps")
  case True
  then show ?thesis
    using plan_progress_pct_rounded_bounds [OF rnd, of t2 ps pe]
    by (simp add: plan_progress_pct_rounded_def)
next
  case lo: False
  show ?thesis
  proof (cases "pe \<le> t2")
    case True
    with lo assms(5) show ?thesis
      using plan_progress_pct_rounded_bounds [OF rnd, of t1 ps pe]
      by (simp add: plan_progress_pct_rounded_def)
  next
    case False
    with lo assms(5) show ?thesis
      using plan_progress_rounded_mid(2) [OF rnd, of ps t1 t2 pe]
      by (simp add: plan_progress_pct_rounded_def)
  qed
qed


text \<open>
  Claim C8. For a plan with \<open>plan_start < plan_end\<close>, the progress percentage does not
  decrease as \<open>today\<close> advances, lies between 0 and 100, and is 0 up to the plan start,
  100 from the plan end on, and \<open>(today - plan_start).days / plan_days * 100\<close> in
  between, with \<open>plan_days = max(1, (plan_end - plan_start).days + 1)\<close>.
\<close>

theorem plan_progress_pct_monotone:
  assumes "plan_start < plan_end" and "t1 \<le> t2"
  shows "plan_progress_pct t1 plan_start plan_end \<le> plan_progress_pct t2 plan_start plan_end
    \<and> 0 \<le> plan_progress_pct t plan_start plan_end
    \<and> plan_progress_pct t plan_start plan_end \<le> 100
    \<and> plan_progress_pct t plan_start plan_end =
        (if t \<le> plan_start then 0
         else if t \<ge> plan_end then 100
         else of_int (t - plan_start) / of_int (max 1 (plan_end - plan_start + 1)) * 100)"
  using plan_progress_mono [OF assms(2), of plan_start plan_end]
    plan_progress_bounds [of t plan_start plan_end]
  by (simp add: plan_progress_pct_def plan_days_def)

theorem plan_progress_pct_monotone_witness:
  "(738893::int) < 738906 \<and> (738895::int) \<le> 738900
   \<and> plan_progress_pct 738895 738893 738906 = 100 / 7
   \<and> plan_progress_pct 738900 738893 738906 = 50
   \<and> plan_progress_pct 738895 738893 738906 \<le> plan_progress_pct 738900 738893 738906
   \<and> plan_progress_pct 738893 738893 738906 = 0
   \<and> plan_progress_pct 738906 738893 738906 = 100"
proof -
  have h: "(738893::int) < 738906" "(738895::int) \<le> 738900" by simp_all
  have "plan_progress_pct 738895 738893 738906 \<le> plan_progress_pct 738900 738893 738906"
    using plan_progress_pct_monotone [OF h] by blast
  then show ?thesis
    by (simp add: plan_progress_pct_def plan_days_def)
qed

section \<open>Properties of loading and saving\<close>

lemma load_state_recovers:
  "load_state No_file = Inr (JObj [])"
  "load_state Read_OSError = Inr (JObj [])"
  "load_state Read_JSONDecodeError = Inr (JObj [])"
  "\<not> py_eq_int (case map_of kvs ''version'' of None \<Rightarrow> JNull | Some v \<Rightarrow> v) STATE_VERSION
    \<Longrightarrow> load_state (Read_value (JObj kvs)) = Inr (JObj [])"
  by (simp_all add: load_state_def data_get_def)

lemma load_state_current_version:
  "py_eq_int (case map_of kvs ''version'' of None \<Rightarrow> JNull | Some v \<Rightarrow> v) STATE_VERSION
    \<Longrightarrow> load_state (Read_value (JObj kvs)) =
        Inr (case map_of kvs ''state'' of None \<Rightarrow> JObj [] | Some v \<Rightarrow> v)"
  by (simp add: load_state_def data_get_def)

text \<open>
  Claim C4 says that loading never fails: a stored version other than the current
  one, or a malformed envelope, gives the empty state. The code does so when the file
  is missing, cannot be read, is not JSON, or is a dictionary of another version
  (\<open>load_state_recovers\<close>). It does not when the file holds JSON that is not a
  dictionary: \<open>data.get\<close> raises \<open>AttributeError\<close>, which nothing catches. Bytes that
  are not UTF-8 raise \<open>UnicodeDecodeError\<close>, which is not among the caught exceptions
  either, and a \<open>state\<close> entry that is not a dictionary is returned as it is.
\<close>

theorem load_state_non_object_raises:
  "load_state (Read_value (JArr [])) = Inl AttributeError
   \<and> load_state (Read_value (JStr ''x'')) = Inl AttributeError
   \<and> load_state (Read_value JNull) = Inl AttributeError
   \<and> load_state Read_UnicodeDecodeError = Inl UnicodeDecodeError
   \<and> load_state (Read_value (JObj [(''version'', JInt 1), (''state'', JInt 7)])) = Inr (JInt 7)"
  by (simp add: load_state_def data_get_def STATE_VERSION_def)

lemma completed_not_planned_prefix:
  "starts_with ''completed_'' k \<Longrightarrow> \<not> starts_with ''planned_'' k"
  by (cases k) simp_all

lemma load_state_save_state:
  "save_state True saved_at state = (Some payload, False)
    \<Longrightarrow> load_state (Read_value payload) = Inr (JObj state)"
  by (auto simp: save_state_def load_state_def data_get_def Let_def STATE_VERSION_def)

text \<open>
  Claim C9. Let \<open>c\<close> map keys with the prefix \<open>completed_\<close> to booleans and \<open>p\<close> map keys
  with the prefix \<open>planned_\<close> to date texts, and let \<open>state\<close> hold the entries of both.
  Saving \<open>state\<close> writes the versioned envelope, loading that envelope returns \<open>state\<close>,
  and the entries of the loaded state under each prefix are exactly those of \<open>c\<close> and
  of \<open>p\<close>.
\<close>

theorem save_load_roundtrip:
  assumes "\<forall>k \<in> set (map fst c). starts_with ''completed_'' k"
    and "\<forall>k \<in> set (map fst p). starts_with ''planned_'' k"
    and "state = map (\<lambda>(k, done). (k, JBool done)) c @ map (\<lambda>(k, day). (k, JStr day)) p"
  shows "\<exists>payload. save_state True saved_at state = (Some payload, False)
      \<and> load_state (Read_value payload) = Inr (JObj state)
      \<and> filter (\<lambda>(k, v). starts_with ''completed_'' k) state
          = map (\<lambda>(k, done). (k, JBool done)) c
      \<and> filter (\<lambda>(k, v). starts_with ''planned_'' k) state
          = map (\<lambda>(k, day). (k, JStr day)) p"
proof -
  let ?c = "map (\<lambda>(k, done). (k, JBool done)) c"
  let ?p = "map (\<lambda>(k, day). (k, JStr day)) p"
  obtain payload where s: "save_state True saved_at state = (Some payload, False)"
    by (simp add: save_state_def Let_def)
  have l: "load_state (Read_value payload) = Inr (JObj state)"
    using s by (rule load_state_save_state)
  have cc: "\<forall>kv \<in> set ?c. starts_with ''completed_'' (fst kv)"
    using assms(1) by auto
  have pp: "\<forall>kv \<in> set ?p. starts_with ''planned_'' (fst kv)"
    using assms(2) by auto
  have cp: "\<forall>kv \<in> set ?c. \<not> starts_with ''planned_'' (fst kv)"
    using cc completed_not_planned_prefix by blast
  have pc: "\<forall>kv \<in> set ?p. \<not> starts_with ''completed_'' (fst kv)"
    using pp completed_not_planned_prefix by blast
  have f1: "filter (\<lambda>(k, v). starts_with ''completed_'' k) state = ?c"
    using cc pc unfolding assms(3) by (simp add: case_prod_beta filter_id_conv)
  have f2: "filter (\<lambda>(k, v). starts_with ''planned_'' k) state = ?p"
    using pp cp unfolding assms(3) by (simp add: case_prod_beta filter_id_conv)
  from s l f1 f2 show ?thesis by blast
qed

theorem save_load_roundtrip_witness:
  "load_state (Read_value (JObj [(''version'', JInt 1), (''saved_at'', JStr ''2024-01-03''),
      (''state'', JObj [(''completed_0_session_1'', JBool True),
                        (''planned_0_session_1'', JStr ''2024-01-09'')])]))
    = Inr (JObj [(''completed_0_session_1'', JBool True),
                 (''planned_0_session_1'', JStr ''2024-01-09'')])"
proof -
  have c: "\<forall>k \<in> set (map fst [(''completed_0_session_1'', True)]). starts_with ''completed_'' k"
    by simp
  have p: "\<forall>k \<in> set (map fst [(''planned_0_session_1'', ''2024-01-09'')]).
      starts_with ''planned_'' k"
    by simp
  from save_load_roundtrip [OF c p refl, of "''2024-01-03''"]
  show ?thesis
    by (simp add: save_state_def Let_def STATE_VERSION_def)
qed

lemma foldl_map_of_cases:
  assumes "\<And>acc x. map_of (step acc x) k = (if P x then g else map_of acc k)"
  shows "map_of (foldl step acc xs) k = (if \<exists>x \<in> set xs. P x then g else map_of acc k)"
proof (induction xs arbitrary: acc)
  case Nil
  then show ?case by simp
next
  case (Cons x xs)
  show ?case
    by (simp only: foldl_Cons Cons.IH assms) auto
qed

lemma foldl_distinct_keys:
  assumes "\<And>acc x. distinct (map fst acc) \<Longrightarrow> distinct (map fst (step acc x))"
    and "distinct (map fst acc)"
  shows "distinct (map fst (foldl step acc xs))"
  using assms(2) by (induction xs arbitrary: acc) (simp_all add: assms(1))

lemma completion_key_prefix: "starts_with ''completed_'' (completion_key w c)"
  by (simp add: completion_key_def)

lemma planned_key_prefix: "\<not> starts_with ''completed_'' (planned_key w c)"
  by (simp add: planned_key_def)

lemma map_of_persist_cell:
  "map_of (persist_cell ss w acc col) k =
     (if (k = completion_key w col \<or> k = planned_key w col) \<and> has_key ss k
      then (if starts_with ''completed_'' k
            then map_option (\<lambda>v. JBool (truthy v)) (map_of ss k) else map_of ss k)
      else map_of acc k)"
  using completion_key_neq_planned_key [of w col w col]
  by (auto simp: persist_cell_def Let_def update_conv' has_key_def state_get_def
      completion_key_prefix planned_key_prefix)

lemma map_of_persisted_state:
  "map_of (persisted_state n cols ss) k =
     (if (\<exists>w < n. \<exists>col \<in> set cols. k = completion_key w col \<or> k = planned_key w col)
         \<and> has_key ss k
      then (if starts_with ''completed_'' k
            then map_option (\<lambda>v. JBool (truthy v)) (map_of ss k) else map_of ss k)
       else None)"
proof -
  have inner: "\<And>acc w. map_of (foldl (persist_cell ss w) acc cols) k =
      (if \<exists>col \<in> set cols. (k = completion_key w col \<or> k = planned_key w col) \<and> has_key ss k
       then (if starts_with ''completed_'' k
            then map_option (\<lambda>v. JBool (truthy v)) (map_of ss k) else map_of ss k)
       else map_of acc k)"
    by (rule foldl_map_of_cases) (rule map_of_persist_cell)
  have "map_of (foldl (\<lambda>acc w. foldl (persist_cell ss w) acc cols) [] [0..<n]) k =
      (if \<exists>w \<in> set [0..<n]. \<exists>col \<in> set cols.
            (k = completion_key w col \<or> k = planned_key w col) \<and> has_key ss k
       then (if starts_with ''completed_'' k
            then map_option (\<lambda>v. JBool (truthy v)) (map_of ss k) else map_of ss k)
       else map_of [] k)"
    by (rule foldl_map_of_cases) (rule inner)
  then show ?thesis
    by (auto simp: persisted_state_def)
qed

lemma distinct_persist_cell:
  "distinct (map fst acc) \<Longrightarrow> distinct (map fst (persist_cell ss w acc col))"
  by (simp add: persist_cell_def Let_def distinct_update)

lemma distinct_persisted_state: "distinct (map fst (persisted_state n cols ss))"
  unfolding persisted_state_def
  by (rule foldl_distinct_keys, rule foldl_distinct_keys, rule distinct_persist_cell) simp_all


lemma state_loaded_not_cell_key:
  "''state_loaded'' \<noteq> completion_key w col" "''state_loaded'' \<noteq> planned_key w col"
  by (simp_all add: completion_key_def planned_key_def)

lemma select_key_eq_planned_key:
  "select_key w col = planned_key w' col' \<longleftrightarrow> w = w' \<and> slug col @ ''_select'' = slug col'"
  using digits_then_underscore
    [OF str_of_nat_digits str_of_nat_digits, of w "slug col @ ''_select''" w' "slug col'"]
  by (auto simp: select_key_def planned_key_def dest: str_of_nat_inj)

lemma select_key_neq_completion_key: "select_key w col \<noteq> completion_key w' col'"
  by (simp add: select_key_def planned_key_def completion_key_def)

text \<open>
  Claim C10. The state that is saved holds exactly the completion and planned-day
  keys of the cells of the plan (\<open>n\<close> rows, the session columns \<open>cols\<close>) that are
  present in the session state: a completion key with the truth value of its entry,
  a planned-day key with its entry, and no other key. So \<open>state_loaded\<close> is never
  saved, the selectbox key of a cell is not saved (unless the plan has a column whose
  normalised name is that cell's followed by \<open>_select\<close>, which makes it the planned-day
  key of another cell), and entries of weeks or columns that the plan no longer has
  are left out. \<open>save_state\<close> writes this state under \<open>state\<close> in the envelope.
\<close>

theorem persisted_state_exact:
  "map_of (persisted_state n cols ss) k =
     (if \<exists>w < n. \<exists>col \<in> set cols. k = completion_key w col
      then map_option (\<lambda>v. JBool (truthy v)) (map_of ss k)
      else if \<exists>w < n. \<exists>col \<in> set cols. k = planned_key w col
      then map_of ss k
      else None)
   \<and> distinct (map fst (persisted_state n cols ss))
   \<and> map_of (persisted_state n cols ss) ''state_loaded'' = None
   \<and> ((\<forall>col' \<in> set cols. slug col' \<noteq> slug col @ ''_select'') \<longrightarrow>
        map_of (persisted_state n cols ss) (select_key w col) = None)
   \<and> save_state True saved_at (persisted_state n cols ss) =
        (Some (JObj [(''version'', JInt 1), (''saved_at'', JStr saved_at),
                     (''state'', JObj (persisted_state n cols ss))]), False)"
proof -
  note m = map_of_persisted_state
  have exact: "map_of (persisted_state n cols ss) k =
     (if \<exists>w < n. \<exists>col \<in> set cols. k = completion_key w col
      then map_option (\<lambda>v. JBool (truthy v)) (map_of ss k)
      else if \<exists>w < n. \<exists>col \<in> set cols. k = planned_key w col
      then map_of ss k
      else None)"
    using completion_key_neq_planned_key
    by (auto simp: m [of n cols ss k] has_key_def completion_key_prefix planned_key_prefix)
  have loaded: "map_of (persisted_state n cols ss) ''state_loaded'' = None"
    using state_loaded_not_cell_key by (simp add: m [of n cols ss "''state_loaded''"])
  have sel: "(\<forall>col' \<in> set cols. slug col' \<noteq> slug col @ ''_select'') \<longrightarrow>
        map_of (persisted_state n cols ss) (select_key w col) = None"
    using select_key_eq_planned_key [of w col] select_key_neq_completion_key [of w col]
    by (auto simp: m [of n cols ss "select_key w col"])
  have sv: "save_state True saved_at (persisted_state n cols ss) =
        (Some (JObj [(''version'', JInt 1), (''saved_at'', JStr saved_at),
                     (''state'', JObj (persisted_state n cols ss))]), False)"
    by (simp add: save_state_def Let_def STATE_VERSION_def)
  from exact distinct_persisted_state [of n cols ss] loaded sel sv show ?thesis
    by blast
qed

theorem persisted_state_exact_witness:
  "persisted_state 2 [''Session 1'']
     [(''completed_0_session_1'', JBool True), (''planned_0_session_1'', JStr ''2024-01-09''),
      (''planned_0_session_1_select'', JStr ''Tue 2024-01-09''),
      (''completed_7_session_1'', JBool True), (''state_loaded'', JBool True)]
    = [(''completed_0_session_1'', JBool True), (''planned_0_session_1'', JStr ''2024-01-09'')]
   \<and> map_of (persisted_state 2 [''Session 1'']
     [(''completed_0_session_1'', JBool True), (''planned_0_session_1'', JStr ''2024-01-09''),
      (''planned_0_session_1_select'', JStr ''Tue 2024-01-09''),
      (''completed_7_session_1'', JBool True), (''state_loaded'', JBool True)])
     (select_key 0 ''Session 1'') = None
   \<and> select_key 0 ''Session 1'' = ''planned_0_session_1_select''"
proof -
  let ?ss = "[(''completed_0_session_1'', JBool True),
      (''planned_0_session_1'', JStr ''2024-01-09''),
      (''planned_0_session_1_select'', JStr ''Tue 2024-01-09''),
      (''completed_7_session_1'', JBool True), (''state_loaded'', JBool True)]"
  have e: "persisted_state 2 [''Session 1''] ?ss
      = [(''completed_0_session_1'', JBool True), (''planned_0_session_1'', JStr ''2024-01-09'')]"
    by code_simp
  have k: "select_key 0 ''Session 1'' = ''planned_0_session_1_select''"
    by code_simp
  have "slug ''Session 1'' \<noteq> slug ''Session 1'' @ ''_select''"
    by simp
  then have h: "\<forall>col' \<in> set [''Session 1'']. slug col' \<noteq> slug ''Session 1'' @ ''_select''"
    by simp
  have "map_of (persisted_state 2 [''Session 1''] ?ss) (select_key 0 ''Session 1'') = None"
    using persisted_state_exact [of 2 "[''Session 1'']" ?ss _ "''Session 1''" 0] h
    by blast
  with e k show ?thesis by simp
qed

section \<open>Properties of the distance parser\<close>

lemma char_classes:
  "\<not> is_digit CHR ''.''" "\<not> is_digit CHR ''-''" "\<not> is_digit CHR ''k''"
  "\<not> is_space CHR ''.''" "\<not> is_space CHR ''-''" "\<not> is_space CHR ''k''"
  by (simp_all add: is_digit_def is_space_def code_point_def)

lemma space_not_digit: "is_space c \<Longrightarrow> \<not> is_digit c"
  by (auto simp: is_space_def is_digit_def Let_def)

lemma space_not_dot: "is_space c \<Longrightarrow> c \<noteq> CHR ''.''"
  using char_classes(4) by blast

lemma takeWhile_all: "list_all P xs \<Longrightarrow> \<not> P c \<Longrightarrow> takeWhile P (xs @ c # r) = xs"
  by (induction xs) simp_all

lemma dropWhile_all: "list_all P xs \<Longrightarrow> \<not> P c \<Longrightarrow> dropWhile P (xs @ c # r) = c # r"
  by (induction xs) simp_all

lemma list_all_takeWhile: "list_all P (takeWhile P xs)"
  by (induction xs) simp_all

text \<open>A number followed by a character that is neither a digit nor a dot is matched
  whole, and \<open>match_number\<close> matches nothing but a number.\<close>

lemma match_number_complete:
  assumes "number_text n" and "\<not> is_digit c" and "c \<noteq> CHR ''.''"
  shows "match_number (n @ c # r) = Some (n, c # r)"
  using assms(1) unfolding number_text_def
proof (elim disjE exE conjE)
  assume d: "digits n"
  then have "takeWhile is_digit (n @ c # r) = n" "dropWhile is_digit (n @ c # r) = c # r"
    using assms(2) by (simp_all add: digits_def takeWhile_all dropWhile_all)
  with d assms(3) show ?thesis by (simp add: match_number_def digits_def)
next
  fix whole frac
  assume w: "digits whole" and f: "digits frac" and n: "n = whole @ ''.'' @ frac"
  have 1: "takeWhile is_digit (whole @ CHR ''.'' # frac @ c # r) = whole"
    using w takeWhile_all [of is_digit whole "CHR ''.''" "frac @ c # r"] char_classes(1)
    by (simp add: digits_def)
  have 2: "dropWhile is_digit (whole @ CHR ''.'' # frac @ c # r) = CHR ''.'' # frac @ c # r"
    using w dropWhile_all [of is_digit whole "CHR ''.''" "frac @ c # r"] char_classes(1)
    by (simp add: digits_def)
  have 3: "takeWhile is_digit (frac @ c # r) = frac" "dropWhile is_digit (frac @ c # r) = c # r"
    using f assms(2) by (simp_all add: digits_def takeWhile_all dropWhile_all)
  from w f show ?thesis
    by (simp add: match_number_def 1 2 3 digits_def n Let_def)
qed

lemma match_number_sound:
  assumes "match_number s = Some (n, r)"
  shows "number_text n \<and> s = n @ r"
proof -
  let ?w = "takeWhile is_digit s"
  let ?r = "dropWhile is_digit s"
  have split: "s = ?w @ ?r" by simp
  from assms have w: "?w \<noteq> []" by (auto simp: match_number_def Let_def split: if_splits)
  then have dw: "digits ?w" by (simp add: digits_def list_all_takeWhile)
  show ?thesis
  proof (cases "\<exists>r'. ?r = CHR ''.'' # r' \<and> takeWhile is_digit r' \<noteq> []")
    case True
    then obtain r' where r': "?r = CHR ''.'' # r'" and f: "takeWhile is_digit r' \<noteq> []"
      by blast
    from assms w r' f have n: "n = ?w @ CHR ''.'' # takeWhile is_digit r'"
      and r: "r = dropWhile is_digit r'"
      by (simp_all add: match_number_def Let_def)
    have "digits (takeWhile is_digit r')" using f by (simp add: digits_def list_all_takeWhile)
    with dw n have "number_text n" by (auto simp: number_text_def)
    moreover have "s = n @ r"
      using split r' n r by (metis append.assoc append_Cons takeWhile_dropWhile_id)
    ultimately show ?thesis by simp
  next
    case False
    with assms w have "n = ?w" "r = ?r"
      by (auto simp: match_number_def Let_def split: list.splits if_splits)
    with dw show ?thesis by (simp add: number_text_def)
  qed
qed

lemma match_km_complete: "blank ws \<Longrightarrow> match_km (ws @ ''km'' @ r) = Some r"
  using dropWhile_all [of is_space ws "CHR ''k''" "CHR ''m'' # r"] char_classes(6)
  by (simp add: match_km_def blank_def)

lemma match_km_sound:
  assumes "match_km s = Some r"
  shows "\<exists>ws. blank ws \<and> s = ws @ ''km'' @ r"
proof -
  from assms have "dropWhile is_space s = ''km'' @ r"
    by (auto simp: match_km_def split: list.splits if_splits)
  then have "s = takeWhile is_space s @ ''km'' @ r"
    by (metis takeWhile_dropWhile_id)
  moreover have "blank (takeWhile is_space s)"
    by (simp add: blank_def list_all_takeWhile)
  ultimately show ?thesis by blast
qed


lemma number_text_head: "number_text n \<Longrightarrow> \<exists>h t. n = h # t \<and> is_digit h"
  by (cases n) (auto simp: number_text_def digits_def neq_Nil_conv)

lemma blank_then_stop:
  assumes "blank ws" and "\<not> is_digit d" and "d \<noteq> CHR ''.''"
  shows "\<exists>c r. ws @ d # t = c # r \<and> \<not> is_digit c \<and> c \<noteq> CHR ''.''"
  using assms by (cases ws) (auto simp: blank_def space_not_digit space_not_dot)

lemma match_single_iff: "match_single s = Some (num, rest) \<longleftrightarrow> single_at s num rest"
proof
  assume "match_single s = Some (num, rest)"
  then obtain r1 where n: "match_number s = Some (num, r1)" and k: "match_km r1 = Some rest"
    by (auto simp: match_single_def split: option.splits)
  from match_number_sound [OF n] match_km_sound [OF k] show "single_at s num rest"
    by (auto simp: single_at_def)
next
  assume "single_at s num rest"
  then obtain ws where num: "number_text num" and ws: "blank ws"
    and s: "s = num @ ws @ ''km'' @ rest"
    by (auto simp: single_at_def)
  from blank_then_stop [OF ws char_classes(3), of "CHR ''m'' # rest"]
  obtain c r where cr: "ws @ ''km'' @ rest = c # r" and c: "\<not> is_digit c" "c \<noteq> CHR ''.''"
    by auto
  have "match_number s = Some (num, ws @ ''km'' @ rest)"
    using match_number_complete [OF num c, of r] by (simp only: s cr)
  then show "match_single s = Some (num, rest)"
    using match_km_complete [OF ws, of rest] by (simp add: match_single_def)
qed

lemma match_range_iff:
  "match_range s = Some (low, high, rest) \<longleftrightarrow> range_at s low high rest"
proof
  assume m: "match_range s = Some (low, high, rest)"
  then obtain r1 r2 r3 where n1: "match_number s = Some (low, r1)"
    and d: "dropWhile is_space r1 = CHR ''-'' # r2"
    and n2: "match_number (dropWhile is_space r2) = Some (high, r3)"
    and k: "match_km r3 = Some rest"
    by (auto simp: match_range_def split: option.splits list.splits if_splits)
  have r1: "r1 = takeWhile is_space r1 @ ''-'' @ r2"
    using d by (metis append_Cons append_Nil takeWhile_dropWhile_id)
  have r2: "r2 = takeWhile is_space r2 @ high @ r3"
    using match_number_sound [OF n2] by (metis takeWhile_dropWhile_id)
  from match_km_sound [OF k] obtain ws3 where ws3: "blank ws3" "r3 = ws3 @ ''km'' @ rest"
    by blast
  have "s = low @ takeWhile is_space r1 @ ''-'' @ takeWhile is_space r2 @ high @ ws3
      @ ''km'' @ rest"
    using match_number_sound [OF n1] r1 r2 ws3(2) by metis
  moreover have "blank (takeWhile is_space r1)" "blank (takeWhile is_space r2)"
    by (simp_all add: blank_def list_all_takeWhile)
  ultimately show "range_at s low high rest"
    using match_number_sound [OF n1] match_number_sound [OF n2] ws3(1)
    unfolding range_at_def by blast
next
  assume "range_at s low high rest"
  then obtain ws1 ws2 ws3 where low: "number_text low" and high: "number_text high"
    and ws: "blank ws1" "blank ws2" "blank ws3"
    and s: "s = low @ ws1 @ ''-'' @ ws2 @ high @ ws3 @ ''km'' @ rest"
    by (auto simp: range_at_def)
  let ?t3 = "ws3 @ ''km'' @ rest"
  let ?t2 = "ws2 @ high @ ?t3"
  let ?t1 = "ws1 @ ''-'' @ ?t2"
  from blank_then_stop [OF ws(1) char_classes(2), of ?t2]
  obtain c1 u1 where c1: "?t1 = c1 # u1" "\<not> is_digit c1" "c1 \<noteq> CHR ''.''"
    by auto
  have n1: "match_number s = Some (low, ?t1)"
    using match_number_complete [OF low c1(2,3), of u1] by (simp only: s c1(1))
  have d1: "dropWhile is_space ?t1 = CHR ''-'' # ?t2"
    using dropWhile_all [of is_space ws1 "CHR ''-''" ?t2] ws(1) char_classes(5)
    by (simp add: blank_def)
  from number_text_head [OF high] obtain h t where h: "high = h # t" "is_digit h"
    by blast
  then have "\<not> is_space h" using space_not_digit by blast
  then have d2: "dropWhile is_space ?t2 = high @ ?t3"
    using dropWhile_all [of is_space ws2 h "t @ ?t3"] ws(2) by (simp add: blank_def h(1))
  from blank_then_stop [OF ws(3) char_classes(3), of "CHR ''m'' # rest"]
  obtain c3 u3 where c3: "?t3 = c3 # u3" "\<not> is_digit c3" "c3 \<noteq> CHR ''.''"
    by auto
  have n2: "match_number (high @ ?t3) = Some (high, ?t3)"
    using match_number_complete [OF high c3(2,3), of u3] by (simp only: c3(1))
  have km: "match_km ?t3 = Some rest"
    by (rule match_km_complete [OF ws(3)])
  show "match_range s = Some (low, high, rest)"
    by (simp only: match_range_def n1 d1 d2 n2 km option.case prod.case list.case
        simp_thms if_True)
qed


lemma match_range_Nil: "match_range [] = None"
  by (simp add: match_range_def match_number_def)

lemma match_single_Nil: "match_single [] = None"
  by (simp add: match_single_def match_number_def)

text \<open>\<open>search_range\<close> returns the match at the leftmost position that has one.\<close>

lemma search_range_leftmost:
  assumes "match_range (drop i seg) = Some (low, high, rest)"
    and "\<forall>j < i. match_range (drop j seg) = None"
  shows "search_range seg = Some (low, high)"
  using assms
proof (induction seg arbitrary: i)
  case Nil
  then show ?case by (simp add: match_range_Nil)
next
  case (Cons c cs)
  show ?case
  proof (cases i)
    case 0
    with Cons.prems(1) show ?thesis by simp
  next
    case (Suc i')
    with Cons.prems(2) have none: "match_range (c # cs) = None" by fastforce
    from Suc Cons.prems(1) have 1: "match_range (drop i' cs) = Some (low, high, rest)"
      by simp
    have 2: "\<forall>j < i'. match_range (drop j cs) = None"
    proof (intro allI impI)
      fix j assume "j < i'"
      then have "Suc j < i" using Suc by simp
      with Cons.prems(2) have "match_range (drop (Suc j) (c # cs)) = None" by blast
      then show "match_range (drop j cs) = None" by simp
    qed
    from Cons.IH [OF 1 2] none show ?thesis by simp
  qed
qed

lemma search_range_none:
  assumes "\<forall>j. match_range (drop j seg) = None"
  shows "search_range seg = None"
  using assms
proof (induction seg)
  case Nil
  then show ?case by simp
next
  case (Cons c cs)
  from Cons.prems have none: "match_range (c # cs) = None"
    by (metis drop0)
  have "\<forall>j. match_range (drop j cs) = None"
  proof
    fix j
    from Cons.prems have "match_range (drop (Suc j) (c # cs)) = None" by blast
    then show "match_range (drop j cs) = None" by simp
  qed
  with Cons.IH none show ?case by simp
qed

lemma findall_km_none:
  assumes "\<forall>j. match_single (drop j seg) = None"
  shows "findall_km seg = []"
  using assms
proof (induction seg)
  case Nil
  then show ?case by simp
next
  case (Cons c cs)
  from Cons.prems have none: "match_single (c # cs) = None"
    by (metis drop0)
  have "\<forall>j. match_single (drop j cs) = None"
  proof
    fix j
    from Cons.prems have "match_single (drop (Suc j) (c # cs)) = None" by blast
    then show "match_single (drop j cs) = None" by simp
  qed
  with Cons.IH none show ?case by simp
qed

text \<open>A range ends in a single number with its unit.\<close>

lemma range_at_has_single:
  assumes "range_at s low high rest"
  shows "\<exists>j. single_at (drop j s) high rest"
proof -
  from assms obtain ws1 ws2 ws3 where high: "number_text high" and ws3: "blank ws3"
    and s: "s = low @ ws1 @ ''-'' @ ws2 @ high @ ws3 @ ''km'' @ rest"
    by (auto simp: range_at_def)
  have "s = (low @ ws1 @ ''-'' @ ws2) @ (high @ ws3 @ ''km'' @ rest)"
    by (simp add: s)
  then have "drop (length (low @ ws1 @ ''-'' @ ws2)) s = high @ ws3 @ ''km'' @ rest"
    by (metis append_eq_conv_conj)
  with high ws3 show ?thesis
    unfolding single_at_def by blast
qed

lemma float_of_digits:
  assumes "digits whole"
  shows "float_of whole = of_nat (digits_value whole)"
proof -
  have tw: "takeWhile is_digit whole = whole"
    using assms by (simp add: digits_def list_all_iff)
  show ?thesis
    unfolding float_of_def Let_def tw by (simp add: digits_value_def)
qed

lemma float_of_decimal:
  assumes "digits whole" and "digits fr"
  shows "float_of (whole @ ''.'' @ fr) =
     of_nat (digits_value whole) + of_nat (digits_value fr) / 10 ^ length fr"
proof -
  have "takeWhile is_digit (whole @ CHR ''.'' # fr) = whole"
    using assms(1) char_classes(1) by (simp add: digits_def takeWhile_all)
  then show ?thesis
    by (simp add: float_of_def Let_def)
qed


lemma all_drop_Cons: "(\<forall>j. P (drop j (c # cs))) \<longleftrightarrow> P (c # cs) \<and> (\<forall>j. P (drop j cs))"
proof
  assume a: "\<forall>j. P (drop j (c # cs))"
  have "P (c # cs)" using a by (metis drop0)
  moreover have "\<forall>j. P (drop j cs)"
  proof
    fix j
    from a have "P (drop (Suc j) (c # cs))" by blast
    then show "P (drop j cs)" by simp
  qed
  ultimately show "P (c # cs) \<and> (\<forall>j. P (drop j cs))" by simp
next
  assume a: "P (c # cs) \<and> (\<forall>j. P (drop j cs))"
  show "\<forall>j. P (drop j (c # cs))"
  proof
    fix j
    show "P (drop j (c # cs))" using a by (cases j) simp_all
  qed
qed

lemma all_drop_Nil: "(\<forall>j. P (drop j [])) \<longleftrightarrow> P []"
  by simp

text \<open>
  Claim C2. When a range \<open>number - number km\<close> occurs anywhere in the segment,
  \<open>extract_km\<close> returns the mean of the two bounds of its leftmost occurrence. When
  none occurs it returns the sum of the numbers of the \<open>number km\<close> occurrences that
  \<open>re.findall\<close> finds: scanning from the left, an occurrence at the current position
  is taken and the scan resumes after it, otherwise the scan moves on by one
  character. A segment with no such occurrence gives 0. A number may have a decimal
  part: the text \<open>whole.fr\<close> is read as \<open>whole + fr / 10 ^ length fr\<close>.
\<close>

theorem extract_km_rule:
  "(range_at (drop i seg) low high rest \<and> (\<forall>j < i. \<forall>l h r. \<not> range_at (drop j seg) l h r)
      \<longrightarrow> extract_km seg = (float_of low + float_of high) / 2)
   \<and> ((\<forall>j l h r. \<not> range_at (drop j seg) l h r)
      \<longrightarrow> extract_km seg = sum_list (map float_of (findall_km seg)))
   \<and> findall_km [] = []
   \<and> (single_at seg num rest' \<longrightarrow> findall_km seg = num # findall_km rest')
   \<and> ((\<forall>n r. \<not> single_at (c # cs) n r) \<longrightarrow> findall_km (c # cs) = findall_km cs)
   \<and> ((\<forall>j n r. \<not> single_at (drop j seg) n r) \<longrightarrow> extract_km seg = 0)
   \<and> (digits whole \<longrightarrow> float_of whole = of_nat (digits_value whole))
   \<and> (digits whole \<and> digits fr \<longrightarrow>
        float_of (whole @ ''.'' @ fr) =
          of_nat (digits_value whole) + of_nat (digits_value fr) / 10 ^ length fr)"
proof -
  have range: "range_at (drop i seg) low high rest
      \<and> (\<forall>j < i. \<forall>l h r. \<not> range_at (drop j seg) l h r)
      \<longrightarrow> extract_km seg = (float_of low + float_of high) / 2"
  proof
    assume a: "range_at (drop i seg) low high rest
      \<and> (\<forall>j < i. \<forall>l h r. \<not> range_at (drop j seg) l h r)"
    then have 1: "match_range (drop i seg) = Some (low, high, rest)"
      by (simp add: match_range_iff)
    have 2: "\<forall>j < i. match_range (drop j seg) = None"
    proof (intro allI impI)
      fix j assume "j < i"
      with a have "\<forall>l h r. match_range (drop j seg) \<noteq> Some (l, h, r)"
        by (simp add: match_range_iff)
      then show "match_range (drop j seg) = None"
        by (cases "match_range (drop j seg)") auto
    qed
    from search_range_leftmost [OF 1 2]
    show "extract_km seg = (float_of low + float_of high) / 2"
      by (simp add: extract_km_def)
  qed
  have no_range: "\<And>s. (\<forall>j l h r. \<not> range_at (drop j s) l h r) \<Longrightarrow> search_range s = None"
  proof -
    fix s assume a: "\<forall>j l h r. \<not> range_at (drop j s) l h r"
    have "\<forall>j. match_range (drop j s) = None"
    proof
      fix j
      from a have "\<forall>l h r. match_range (drop j s) \<noteq> Some (l, h, r)"
        by (simp add: match_range_iff)
      then show "match_range (drop j s) = None"
        by (cases "match_range (drop j s)") auto
    qed
    then show "search_range s = None" by (rule search_range_none)
  qed
  have singles: "(\<forall>j l h r. \<not> range_at (drop j seg) l h r)
      \<longrightarrow> extract_km seg = sum_list (map float_of (findall_km seg))"
    using no_range [of seg] by (simp add: extract_km_def)
  have found: "single_at seg num rest' \<longrightarrow> findall_km seg = num # findall_km rest'"
  proof
    assume "single_at seg num rest'"
    then have m: "match_single seg = Some (num, rest')" by (simp add: match_single_iff)
    then obtain c' cs' where "seg = c' # cs'"
      by (cases seg) (simp_all add: match_single_Nil)
    with m show "findall_km seg = num # findall_km rest'" by simp
  qed
  have skip: "(\<forall>n r. \<not> single_at (c # cs) n r) \<longrightarrow> findall_km (c # cs) = findall_km cs"
  proof
    assume "\<forall>n r. \<not> single_at (c # cs) n r"
    then have "\<forall>n r. match_single (c # cs) \<noteq> Some (n, r)"
      by (simp add: match_single_iff)
    then have "match_single (c # cs) = None"
      by (cases "match_single (c # cs)") auto
    then show "findall_km (c # cs) = findall_km cs" by simp
  qed
  have zero: "(\<forall>j n r. \<not> single_at (drop j seg) n r) \<longrightarrow> extract_km seg = 0"
  proof
    assume a: "\<forall>j n r. \<not> single_at (drop j seg) n r"
    have "\<forall>j. match_single (drop j seg) = None"
    proof
      fix j
      from a have "\<forall>n r. match_single (drop j seg) \<noteq> Some (n, r)"
        by (simp add: match_single_iff)
      then show "match_single (drop j seg) = None"
        by (cases "match_single (drop j seg)") auto
    qed
    then have f: "findall_km seg = []" by (rule findall_km_none)
    have "\<forall>j l h r. \<not> range_at (drop j seg) l h r"
    proof (intro allI notI)
      fix j l h r assume "range_at (drop j seg) l h r"
      from range_at_has_single [OF this] obtain k where "single_at (drop k (drop j seg)) h r"
        by blast
      then have "single_at (drop (k + j) seg) h r" by simp
      with a show False by blast
    qed
    from no_range [OF this] f show "extract_km seg = 0"
      by (simp add: extract_km_def)
  qed
  from range singles found skip zero float_of_digits [of whole] float_of_decimal [of whole fr]
  show ?thesis by simp
qed

theorem extract_km_rule_witness:
  "range_at ''5-7km'' ''5'' ''7'' [] \<and> extract_km ''5-7km'' = 6
   \<and> findall_km ''2.5km'' = [''2.5''] \<and> extract_km ''2.5km'' = 5 / 2
   \<and> extract_km ''rest'' = 0"
proof -
  note rule = extract_km_rule
  have r: "range_at (drop 0 ''5-7km'') ''5'' ''7'' []"
  proof -
    have "match_range ''5-7km'' = Some (''5'', ''7'', [])" by code_simp
    then show ?thesis by (simp add: match_range_iff)
  qed
  have v: "float_of ''5'' = 5" "float_of ''7'' = 7" "float_of ''2.5'' = 5 / 2"
    by code_simp+
  have six: "extract_km ''5-7km'' = 6"
    using rule [of 0 "''5-7km''" "''5''" "''7''" "[]"] r v by simp
  have nr: "match_range ''2.5km'' = None" "match_range ''.5km'' = None"
    "match_range ''5km'' = None" "match_range ''km'' = None" "match_range ''m'' = None"
    "match_range [] = None"
    by code_simp+
  have "\<forall>j. match_range (drop j ''2.5km'') = None"
    by (simp only: all_drop_Cons [of "\<lambda>s. match_range s = None"]
        all_drop_Nil [of "\<lambda>s. match_range s = None"] nr simp_thms)
  then have no: "\<forall>j l h r. \<not> range_at (drop j ''2.5km'') l h r"
    by (simp add: match_range_iff [symmetric])
  have f: "findall_km ''2.5km'' = [''2.5'']" by code_simp
  have half: "extract_km ''2.5km'' = 5 / 2"
    using rule [of _ "''2.5km''"] no f v by simp
  have ns: "match_single ''rest'' = None" "match_single ''est'' = None"
    "match_single ''st'' = None" "match_single ''t'' = None" "match_single [] = None"
    by code_simp+
  have "\<forall>j. match_single (drop j ''rest'') = None"
    by (simp only: all_drop_Cons [of "\<lambda>s. match_single s = None"]
        all_drop_Nil [of "\<lambda>s. match_single s = None"] ns simp_thms)
  then have "\<forall>j n r. \<not> single_at (drop j ''rest'') n r"
    by (simp add: match_single_iff [symmetric])
  then have zero: "extract_km ''rest'' = 0"
    using rule [of _ "''rest''"] by blast
  from r six f half zero show ?thesis by simp
qed

lemma segment_step_fields:
  "swim (segment_step d piece) =
     swim d + (if strip piece \<noteq> [] \<and> contains ''swim'' (strip piece)
               then SWIM_DISTANCE_KM else 0)"
  "bike (segment_step d piece) =
     bike d + (if strip piece \<noteq> []
                 \<and> (contains ''bike'' (strip piece) \<or> contains ''cycle'' (strip piece))
               then extract_km (strip piece) else 0)"
  "run (segment_step d piece) =
     run d + (if strip piece \<noteq> [] \<and> contains ''run'' (strip piece)
              then extract_km (strip piece) else 0)"
  by (simp_all add: segment_step_def Let_def)

lemma foldl_segment_step_swim:
  "swim (foldl segment_step d pieces) =
     swim d + SWIM_DISTANCE_KM *
       of_nat (length (filter (contains ''swim'')
         (filter (\<lambda>segment. segment \<noteq> []) (map strip pieces))))"
  by (induction pieces arbitrary: d) (simp_all add: segment_step_fields algebra_simps)

lemma foldl_segment_step_bike:
  "bike (foldl segment_step d pieces) =
     bike d + sum_list (map extract_km
       (filter (\<lambda>segment. contains ''bike'' segment \<or> contains ''cycle'' segment)
         (filter (\<lambda>segment. segment \<noteq> []) (map strip pieces))))"
  by (induction pieces arbitrary: d) (simp_all add: segment_step_fields)

lemma foldl_segment_step_run:
  "run (foldl segment_step d pieces) =
     run d + sum_list (map extract_km
       (filter (contains ''run'')
         (filter (\<lambda>segment. segment \<noteq> []) (map strip pieces))))"
  by (induction pieces arbitrary: d) (simp_all add: segment_step_fields)

text \<open>
  Claim C3. The parser lower-cases the text, splits it at every plus sign and takes
  the stripped pieces that are not blank. Each of these segments is tested for each
  keyword on its own: a segment that contains \<open>swim\<close> adds exactly 2 km to swim,
  whatever number it holds; one that contains \<open>bike\<close> or \<open>cycle\<close> adds its extracted
  kilometres to bike; one that contains \<open>run\<close> adds its extracted kilometres to run.
  A segment with several keywords counts for each of them.
\<close>

theorem session_distances_by_segment:
  "swim (session_distances t) =
     2 * of_nat (length (filter (contains ''swim'') (segments t)))
   \<and> bike (session_distances t) =
     sum_list (map extract_km
       (filter (\<lambda>segment. contains ''bike'' segment \<or> contains ''cycle'' segment) (segments t)))
   \<and> run (session_distances t) =
     sum_list (map extract_km (filter (contains ''run'') (segments t)))"
  by (simp add: session_distances_def segments_def foldl_segment_step_swim
      foldl_segment_step_bike foldl_segment_step_run SWIM_DISTANCE_KM_def)


theorem session_distances_by_segment_witness:
  "segments ''Swim 2km + Bike/Run 10km'' = [''swim 2km'', ''bike/run 10km'']
   \<and> swim (session_distances ''Swim 2km + Bike/Run 10km'') = 2
   \<and> bike (session_distances ''Swim 2km + Bike/Run 10km'') = 10
   \<and> run (session_distances ''Swim 2km + Bike/Run 10km'') = 10"
proof -
  have s: "segments ''Swim 2km + Bike/Run 10km'' = [''swim 2km'', ''bike/run 10km'']"
    by code_simp
  have k: "extract_km ''bike/run 10km'' = 10"
    by code_simp
  note t = session_distances_by_segment [of "''Swim 2km + Bike/Run 10km''", unfolded s]
  have "swim (session_distances ''Swim 2km + Bike/Run 10km'') = 2"
    using t by simp
  moreover have "bike (session_distances ''Swim 2km + Bike/Run 10km'') = 10"
    using t k by simp
  moreover have "run (session_distances ''Swim 2km + Bike/Run 10km'') = 10"
    using t k by simp
  ultimately show ?thesis using s by simp
qed

section \<open>Properties of the aggregation\<close>

lemma cell_text_single:
  "single_label row col \<Longrightarrow> cell_text row col = Inr (row_text row col)"
  by (auto simp: single_label_def row_text_def cell_text_def split: list.splits)

lemma cell_text_several:
  "\<not> single_label row col \<Longrightarrow> cell_text row col = Inl ValueError"
  by (auto simp: single_label_def cell_text_def split: list.splits)

lemma cell_update_cases:
  "cell_update ss today w week_end acc col session_text =
     (if is_completed ss (w, col) then
        acc\<lparr>completed_count := completed_count acc + 1,
            swim_km := swim_km acc + swim (session_distances session_text),
            bike_km := bike_km acc + bike (session_distances session_text),
            run_km := run_km acc + run (session_distances session_text),
            gym_sessions := gym_sessions acc +
              (if contains ''gym'' (lower session_text) then 1 else 0)\<rparr>
      else if week_end < today then acc\<lparr>missed_count := missed_count acc + 1\<rparr>
      else acc)"
  by (simp add: cell_update_def is_completed_def Let_def)

lemma aggregate_cells_single:
  assumes "\<forall>col \<in> set cols. single_label row col"
  shows "aggregate_cells ss today w we row acc cols =
     Inr (foldl (\<lambda>a col. cell_update ss today w we a col (row_text row col)) acc cols)"
  using assms
  by (induction cols arbitrary: acc) (simp_all add: cell_step_def cell_text_single)

lemma aggregate_cells_several:
  assumes "\<exists>col \<in> set cols. \<not> single_label row col"
  shows "aggregate_cells ss today w we row acc cols = Inl ValueError"
  using assms
proof (induction cols arbitrary: acc)
  case Nil
  then show ?case by simp
next
  case (Cons col cols)
  show ?case
  proof (cases "single_label row col")
    case True
    with Cons.prems have "\<exists>col \<in> set cols. \<not> single_label row col" by auto
    with Cons.IH True show ?thesis
      by (simp add: cell_step_def cell_text_single)
  next
    case False
    then show ?thesis by (simp add: cell_step_def cell_text_several)
  qed
qed

lemma foldl_cell_update:
  "completed_count (foldl (\<lambda>a col. cell_update ss today w we a col (row_text row col)) acc cols) =
     completed_count acc + length (filter (\<lambda>col. is_completed ss (w, col)) cols)"
  "missed_count (foldl (\<lambda>a col. cell_update ss today w we a col (row_text row col)) acc cols) =
     missed_count acc + length (filter (\<lambda>col. \<not> is_completed ss (w, col) \<and> we < today) cols)"
  "swim_km (foldl (\<lambda>a col. cell_update ss today w we a col (row_text row col)) acc cols) =
     swim_km acc + sum_list (map (\<lambda>col. swim (session_distances (row_text row col)))
       (filter (\<lambda>col. is_completed ss (w, col)) cols))"
  "bike_km (foldl (\<lambda>a col. cell_update ss today w we a col (row_text row col)) acc cols) =
     bike_km acc + sum_list (map (\<lambda>col. bike (session_distances (row_text row col)))
       (filter (\<lambda>col. is_completed ss (w, col)) cols))"
  "run_km (foldl (\<lambda>a col. cell_update ss today w we a col (row_text row col)) acc cols) =
     run_km acc + sum_list (map (\<lambda>col. run (session_distances (row_text row col)))
       (filter (\<lambda>col. is_completed ss (w, col)) cols))"
  "gym_sessions (foldl (\<lambda>a col. cell_update ss today w we a col (row_text row col)) acc cols) =
     gym_sessions acc + length (filter (\<lambda>col. is_completed ss (w, col)
       \<and> contains ''gym'' (lower (row_text row col))) cols)"
  by (induction cols arbitrary: acc; simp add: cell_update_cases)+

lemma aggregate_rows_defined:
  assumes "\<forall>(w, row) \<in> set irows. w < length starts \<and> valid_date (starts ! w + 6)
      \<and> (\<forall>col \<in> set cols. single_label row col)"
  shows "\<exists>st. aggregate_rows ss today starts cols acc irows = Inr st"
  using assms
proof (induction irows arbitrary: acc)
  case Nil
  then show ?case by simp
next
  case (Cons ir irows)
  obtain w row where ir: "ir = (w, row)" by (cases ir)
  with Cons.prems have "w < length starts" "valid_date (starts ! w + 6)"
    "\<forall>col \<in> set cols. single_label row col" by simp_all
  moreover from Cons.prems have "\<forall>(w, row) \<in> set irows.
      w < length starts \<and> valid_date (starts ! w + 6)
      \<and> (\<forall>col \<in> set cols. single_label row col)" by simp
  ultimately show ?case
    using Cons.IH by (simp add: ir date_add_def aggregate_cells_single)
qed

lemma aggregate_rows_sum:
  fixes f :: "stats \<Rightarrow> 'a::comm_monoid_add"
  assumes step: "\<And>w we row acc.
      f (foldl (\<lambda>a col. cell_update ss today w we a col (row_text row col)) acc cols)
        = f acc + g w we row"
    and single: "\<forall>(w, row) \<in> set irows. \<forall>col \<in> set cols. single_label row col"
    and res: "aggregate_rows ss today starts cols acc irows = Inr st"
  shows "f st = f acc + sum_list (map (\<lambda>(w, row). g w (starts ! w + 6) row) irows)"
  using single res
proof (induction irows arbitrary: acc)
  case Nil
  then show ?case by simp
next
  case (Cons ir irows)
  obtain w row where ir: "ir = (w, row)" by (cases ir)
  from Cons.prems(1) have s: "\<forall>col \<in> set cols. single_label row col"
    and rest: "\<forall>(w, row) \<in> set irows. \<forall>col \<in> set cols. single_label row col"
    by (simp_all add: ir)
  from Cons.prems(2) have r: "aggregate_rows ss today starts cols
      (foldl (\<lambda>a col. cell_update ss today w (starts ! w + 6) a col (row_text row col))
        acc cols) irows = Inr st"
    by (auto simp: ir date_add_def aggregate_cells_single [OF s] split: if_splits)
  show ?case
    using Cons.IH [OF rest r] by (simp add: ir step add.assoc)
qed

lemma aggregate_rows_several:
  assumes "\<forall>(w, row) \<in> set irows. w < length starts \<and> valid_date (starts ! w + 6)"
    and "\<exists>(w, row) \<in> set irows. \<exists>col \<in> set cols. \<not> single_label row col"
  shows "aggregate_rows ss today starts cols acc irows = Inl ValueError"
  using assms
proof (induction irows arbitrary: acc)
  case Nil
  then show ?case by simp
next
  case (Cons ir irows)
  obtain w row where ir: "ir = (w, row)" by (cases ir)
  from Cons.prems(1) have ok: "w < length starts" "valid_date (starts ! w + 6)"
    and rest: "\<forall>(w, row) \<in> set irows. w < length starts \<and> valid_date (starts ! w + 6)"
    by (simp_all add: ir)
  show ?case
  proof (cases "\<forall>col \<in> set cols. single_label row col")
    case True
    with Cons.prems(2) have "\<exists>(w, row) \<in> set irows. \<exists>col \<in> set cols. \<not> single_label row col"
      by (auto simp: ir)
    from Cons.IH [OF rest this] ok True show ?thesis
      by (simp add: ir date_add_def aggregate_cells_single)
  next
    case False
    then have "\<exists>col \<in> set cols. \<not> single_label row col" by blast
    from aggregate_cells_several [OF this] ok show ?thesis
      by (simp add: ir date_add_def)
  qed
qed

lemma set_iterrows: "snd ` set (iterrows plan_rows) = set plan_rows"
  by (simp add: iterrows_def) (metis length_upt diff_zero map_snd_zip set_map)

lemma map_iterrows:
  "map (\<lambda>(w, row). h w row) (iterrows plan_rows) =
     map (\<lambda>w. h w (plan_rows ! w)) [0..<length plan_rows]"
  by (rule nth_equalityI) (simp_all add: iterrows_def)

lemma length_filter_plan_cells:
  "length (filter P (plan_cells n cols)) =
     sum_list (map (\<lambda>w. length (filter (\<lambda>col. P (w, col)) cols)) [0..<n])"
  by (simp add: plan_cells_def filter_concat length_concat filter_map comp_def)

lemma sum_list_concat_lists:
  fixes xss :: "'a::comm_monoid_add list list"
  shows "sum_list (concat xss) = sum_list (map sum_list xss)"
  by (induction xss) simp_all

lemma sum_list_filter_plan_cells:
  fixes F :: "nat \<times> string \<Rightarrow> 'a::comm_monoid_add"
  shows "sum_list (map F (filter P (plan_cells n cols))) =
     sum_list (map (\<lambda>w. sum_list (map (\<lambda>col. F (w, col)) (filter (\<lambda>col. P (w, col)) cols)))
       [0..<n])"
  by (simp add: plan_cells_def filter_concat map_concat sum_list_concat_lists filter_map comp_def)


text \<open>
  Every run that reaches the aggregation loop has computed the week starts and the
  plan end before, so it has one week start per row and every week end is a date.
\<close>

lemma week_start_dates_map:
  "week_start_dates base idxs = Inr ws \<Longrightarrow> ws = map (\<lambda>i. base + 7 * int i) idxs"
proof (induction idxs arbitrary: ws)
  case Nil
  then show ?case by simp
next
  case (Cons i idxs)
  then show ?case
    by (auto simp: date_add_def split: if_splits sum.splits)
qed

lemma week_ends_are_dates:
  assumes "week_starts raw = Inr ws" and "date_add (last ws) 6 = Inr plan_end"
  shows "length ws = length raw \<and> (\<forall>s \<in> set ws. valid_date (s + 6))"
proof -
  from assms(1) obtain A later base where raw: "raw = A # later"
    and base: "align_to_monday A = Inr base"
    and wsd: "week_start_dates base [0..<length raw] = Inr ws"
    by (auto simp: week_starts_def split: list.splits sum.splits)
  from week_start_dates_map [OF wsd]
  have ws: "ws = map (\<lambda>i. base + 7 * int i) [0..<length raw]" .
  have vb: "valid_date base"
    using base by (auto simp: align_to_monday_def date_add_def Let_def split: if_splits)
  have "last ws = base + 7 * int (length later)"
    unfolding ws raw by (simp add: last_map)
  with assms(2) have top: "valid_date (base + 7 * int (length later) + 6)"
    by (auto simp: date_add_def split: if_splits)
  have "\<forall>s \<in> set ws. valid_date (s + 6)"
  proof
    fix s assume "s \<in> set ws"
    then obtain i where "i \<le> length later" "s = base + 7 * int i"
      unfolding ws raw by auto
    with vb top show "valid_date (s + 6)"
      by (simp add: valid_date_def MIN_ORDINAL_def)
  qed
  with ws show ?thesis by simp
qed

text \<open>
  Claim C1. The loop body reads the session text of the cell and then treats the cell
  in exactly one of three ways. If the completion flag of its key is true, the
  completed count goes up by one, the swim, bike and run distances of the session
  text are added to the totals, and the gym count goes up by one exactly when the
  lower-cased text contains \<open>gym\<close>. Otherwise, if the week end (week start plus six
  days) is before today, the missed count goes up by one. Otherwise nothing changes.
  Over a whole plan, with one week start per row and every week end a date (what
  \<open>week_ends_are_dates\<close> gives), the aggregation returns the number of completed cells,
  the number of missed cells, the distances summed over the completed cells and the
  number of completed gym cells. This holds when every session column labels at most
  one entry of every row. When two columns of the plan have the same label after
  stripping, reading the session text raises \<open>ValueError\<close> and the aggregation returns
  nothing.
\<close>

theorem aggregate_classifies_cells:
  assumes "length starts = length plan_rows"
    and "\<forall>s \<in> set starts. valid_date (s + 6)"
    and "cells = plan_cells (length plan_rows) cols"
  shows "cell_step ss today w week_end row acc col =
       (case cell_text row col of
          Inl e \<Rightarrow> Inl e
        | Inr session_text \<Rightarrow>
            Inr (if is_completed ss (w, col) then
                   acc\<lparr>completed_count := completed_count acc + 1,
                       swim_km := swim_km acc + swim (session_distances session_text),
                       bike_km := bike_km acc + bike (session_distances session_text),
                       run_km := run_km acc + run (session_distances session_text),
                       gym_sessions := gym_sessions acc +
                         (if contains ''gym'' (lower session_text) then 1 else 0)\<rparr>
                 else if week_end < today then acc\<lparr>missed_count := missed_count acc + 1\<rparr>
                 else acc))
    \<and> cell_text row col =
         (if single_label row col then Inr (row_text row col) else Inl ValueError)
    \<and> ((\<forall>r \<in> set plan_rows. \<forall>c \<in> set cols. single_label r c) \<longrightarrow>
         (\<exists>st. aggregate ss today starts cols plan_rows = Inr st
          \<and> completed_count st = length (filter (is_completed ss) cells)
          \<and> missed_count st =
              length (filter (\<lambda>cell. \<not> is_completed ss cell \<and> starts ! fst cell + 6 < today)
                cells)
          \<and> swim_km st =
              sum_list (map (\<lambda>cell. swim (session_distances (plan_text plan_rows cell)))
                (filter (is_completed ss) cells))
          \<and> bike_km st =
              sum_list (map (\<lambda>cell. bike (session_distances (plan_text plan_rows cell)))
                (filter (is_completed ss) cells))
          \<and> run_km st =
              sum_list (map (\<lambda>cell. run (session_distances (plan_text plan_rows cell)))
                (filter (is_completed ss) cells))
          \<and> gym_sessions st =
              length (filter (\<lambda>cell. is_completed ss cell
                \<and> contains ''gym'' (lower (plan_text plan_rows cell))) cells)))
    \<and> ((\<exists>r \<in> set plan_rows. \<exists>c \<in> set cols. \<not> single_label r c) \<longrightarrow>
         aggregate ss today starts cols plan_rows = Inl ValueError)"
proof -
  let ?init = "\<lparr>completed_count = 0, missed_count = 0, swim_km = 0, bike_km = 0,
    run_km = 0, gym_sessions = 0\<rparr>"
  have body: "cell_step ss today w week_end row acc col =
       (case cell_text row col of
          Inl e \<Rightarrow> Inl e
        | Inr session_text \<Rightarrow>
            Inr (if is_completed ss (w, col) then
                   acc\<lparr>completed_count := completed_count acc + 1,
                       swim_km := swim_km acc + swim (session_distances session_text),
                       bike_km := bike_km acc + bike (session_distances session_text),
                       run_km := run_km acc + run (session_distances session_text),
                       gym_sessions := gym_sessions acc +
                         (if contains ''gym'' (lower session_text) then 1 else 0)\<rparr>
                 else if week_end < today then acc\<lparr>missed_count := missed_count acc + 1\<rparr>
                 else acc))"
    by (simp add: cell_step_def cell_update_cases split: sum.splits)
  have reading: "cell_text row col =
      (if single_label row col then Inr (row_text row col) else Inl ValueError)"
    by (simp add: cell_text_single cell_text_several)
  have ok: "\<forall>(w, r) \<in> set (iterrows plan_rows).
      w < length starts \<and> valid_date (starts ! w + 6)"
    using assms(1,2) by (auto simp: iterrows_def in_set_zip)
  have totals: "(\<forall>r \<in> set plan_rows. \<forall>c \<in> set cols. single_label r c) \<longrightarrow>
         (\<exists>st. aggregate ss today starts cols plan_rows = Inr st
          \<and> completed_count st = length (filter (is_completed ss) cells)
          \<and> missed_count st =
              length (filter (\<lambda>cell. \<not> is_completed ss cell \<and> starts ! fst cell + 6 < today)
                cells)
          \<and> swim_km st =
              sum_list (map (\<lambda>cell. swim (session_distances (plan_text plan_rows cell)))
                (filter (is_completed ss) cells))
          \<and> bike_km st =
              sum_list (map (\<lambda>cell. bike (session_distances (plan_text plan_rows cell)))
                (filter (is_completed ss) cells))
          \<and> run_km st =
              sum_list (map (\<lambda>cell. run (session_distances (plan_text plan_rows cell)))
                (filter (is_completed ss) cells))
          \<and> gym_sessions st =
              length (filter (\<lambda>cell. is_completed ss cell
                \<and> contains ''gym'' (lower (plan_text plan_rows cell))) cells))"
  proof
    assume "\<forall>r \<in> set plan_rows. \<forall>c \<in> set cols. single_label r c"
    then have single: "\<forall>(w, r) \<in> set (iterrows plan_rows). \<forall>c \<in> set cols. single_label r c"
      using set_iterrows [of plan_rows] by force
    with ok have "\<forall>(w, r) \<in> set (iterrows plan_rows).
        w < length starts \<and> valid_date (starts ! w + 6)
        \<and> (\<forall>c \<in> set cols. single_label r c)"
      by auto
    from aggregate_rows_defined [OF this] obtain st
      where st: "aggregate_rows ss today starts cols ?init (iterrows plan_rows) = Inr st"
      by blast
    note sum = aggregate_rows_sum [OF _ single st]
    have "completed_count st = length (filter (is_completed ss) cells)"
      using sum [of completed_count, OF foldl_cell_update(1)]
      by (simp add: map_iterrows assms(3) length_filter_plan_cells)
    moreover have "missed_count st =
        length (filter (\<lambda>cell. \<not> is_completed ss cell \<and> starts ! fst cell + 6 < today) cells)"
      using sum [of missed_count, OF foldl_cell_update(2)]
      by (simp add: map_iterrows assms(3) length_filter_plan_cells)
    moreover have "swim_km st =
        sum_list (map (\<lambda>cell. swim (session_distances (plan_text plan_rows cell)))
          (filter (is_completed ss) cells))"
      using sum [of swim_km, OF foldl_cell_update(3)]
      by (simp add: map_iterrows assms(3) sum_list_filter_plan_cells plan_text_def)
    moreover have "bike_km st =
        sum_list (map (\<lambda>cell. bike (session_distances (plan_text plan_rows cell)))
          (filter (is_completed ss) cells))"
      using sum [of bike_km, OF foldl_cell_update(4)]
      by (simp add: map_iterrows assms(3) sum_list_filter_plan_cells plan_text_def)
    moreover have "run_km st =
        sum_list (map (\<lambda>cell. run (session_distances (plan_text plan_rows cell)))
          (filter (is_completed ss) cells))"
      using sum [of run_km, OF foldl_cell_update(5)]
      by (simp add: map_iterrows assms(3) sum_list_filter_plan_cells plan_text_def)
    moreover have "gym_sessions st =
        length (filter (\<lambda>cell. is_completed ss cell
          \<and> contains ''gym'' (lower (plan_text plan_rows cell))) cells)"
      using sum [of gym_sessions, OF foldl_cell_update(6)]
      by (simp add: map_iterrows assms(3) length_filter_plan_cells plan_text_def)
    ultimately show "\<exists>st. aggregate ss today starts cols plan_rows = Inr st
          \<and> completed_count st = length (filter (is_completed ss) cells)
          \<and> missed_count st =
              length (filter (\<lambda>cell. \<not> is_completed ss cell \<and> starts ! fst cell + 6 < today)
                cells)
          \<and> swim_km st =
              sum_list (map (\<lambda>cell. swim (session_distances (plan_text plan_rows cell)))
                (filter (is_completed ss) cells))
          \<and> bike_km st =
              sum_list (map (\<lambda>cell. bike (session_distances (plan_text plan_rows cell)))
                (filter (is_completed ss) cells))
          \<and> run_km st =
              sum_list (map (\<lambda>cell. run (session_distances (plan_text plan_rows cell)))
                (filter (is_completed ss) cells))
          \<and> gym_sessions st =
              length (filter (\<lambda>cell. is_completed ss cell
                \<and> contains ''gym'' (lower (plan_text plan_rows cell))) cells)"
      using st by (simp only: aggregate_def) blast
  qed
  have raises: "(\<exists>r \<in> set plan_rows. \<exists>c \<in> set cols. \<not> single_label r c) \<longrightarrow>
         aggregate ss today starts cols plan_rows = Inl ValueError"
  proof
    assume "\<exists>r \<in> set plan_rows. \<exists>c \<in> set cols. \<not> single_label r c"
    then have "\<exists>(w, r) \<in> set (iterrows plan_rows). \<exists>c \<in> set cols. \<not> single_label r c"
      using set_iterrows [of plan_rows] by force
    from aggregate_rows_several [OF ok this]
    show "aggregate ss today starts cols plan_rows = Inl ValueError"
      by (simp add: aggregate_def)
  qed
  from body reading totals raises show ?thesis by blast
qed

theorem aggregate_classifies_cells_witness:
  "aggregate [(''completed_0_session_1'', JBool True)] 738902 [738893, 738900] [''Session 1'']
     [[(''Session 1'', Some ''Run 5km'')], [(''Session 1'', Some ''Gym + Swim'')]]
    = Inr \<lparr>completed_count = 1, missed_count = 0, swim_km = 0, bike_km = 0, run_km = 5,
        gym_sessions = 0\<rparr>
   \<and> aggregate [(''completed_1_session_1'', JBool True)] 738910 [738893, 738900] [''Session 1'']
     [[(''Session 1'', Some ''Run 5km'')], [(''Session 1'', Some ''Gym + Swim'')]]
    = Inr \<lparr>completed_count = 1, missed_count = 1, swim_km = 2, bike_km = 0, run_km = 0,
        gym_sessions = 1\<rparr>
   \<and> length (filter (is_completed [(''completed_0_session_1'', JBool True)])
        (plan_cells 2 [''Session 1''])) = 1
   \<and> aggregate [(''completed_0_session_1'', JBool True)] 738902 [738893]
        [''Session 1'', ''Session 1'']
        [[(''Session 1'', Some ''Run 5km''), (''Session 1'', Some ''Gym'')]]
    = Inl ValueError"
proof -
  let ?rows = "[[(''Session 1'', Some ''Run 5km'')], [(''Session 1'', Some ''Gym + Swim'')]]"
  let ?ss = "[(''completed_0_session_1'', JBool True)]"
  let ?twice = "[[(''Session 1'', Some ''Run 5km''), (''Session 1'', Some ''Gym'')]]"
  have a1: "aggregate ?ss 738902 [738893, 738900] [''Session 1''] ?rows
    = Inr \<lparr>completed_count = 1, missed_count = 0, swim_km = 0, bike_km = 0, run_km = 5,
        gym_sessions = 0\<rparr>"
    by code_simp
  have a2: "aggregate [(''completed_1_session_1'', JBool True)] 738910 [738893, 738900]
      [''Session 1''] ?rows
    = Inr \<lparr>completed_count = 1, missed_count = 1, swim_km = 2, bike_km = 0, run_km = 0,
        gym_sessions = 1\<rparr>"
    by code_simp
  have h1: "length [738893, 738900 :: int] = length ?rows"
    by simp
  have h2: "\<forall>s \<in> set [738893, 738900]. valid_date (s + 6)"
    by (simp add: valid_date_def MIN_ORDINAL_def MAX_ORDINAL_def)
  have h3: "plan_cells 2 [''Session 1''] = plan_cells (length ?rows) [''Session 1'']"
    by (simp add: numeral_2_eq_2)
  have h4: "\<forall>r \<in> set ?rows. \<forall>c \<in> set [''Session 1'']. single_label r c"
    by (simp add: single_label_def)
  from aggregate_classifies_cells [OF h1 h2 h3, of ?ss 738902] h4 a1
  have n: "length (filter (is_completed ?ss) (plan_cells 2 [''Session 1''])) = 1"
    by auto
  have g1: "length [738893 :: int] = length ?twice"
    by simp
  have g2: "\<forall>s \<in> set [738893]. valid_date (s + 6)"
    by (simp add: valid_date_def MIN_ORDINAL_def MAX_ORDINAL_def)
  have g4: "\<exists>r \<in> set ?twice. \<exists>c \<in> set [''Session 1'', ''Session 1'']. \<not> single_label r c"
    by (simp add: single_label_def)
  from aggregate_classifies_cells [OF g1 g2 refl, of ?ss 738902 _ _ _ _ _ "[''Session 1'', ''Session 1'']"] g4
  have e: "aggregate ?ss 738902 [738893] [''Session 1'', ''Session 1''] ?twice = Inl ValueError"
    by blast
  from a1 a2 n e show ?thesis by simp
qed

end
